theory Spec2Isabelle
  imports Complex_Main "HOL-Library.Word"
begin

section \<open>parcount.cpp: five ways to increment a counter from several threads\<close>

text \<open>
  The program parses \<open>-t\<close> (threads) and \<open>-i\<close> (increments per thread), then runs five
  trials one after the other. In each trial \<open>main\<close> creates \<open>t\<close> threads, opens the
  \<open>start\<close> gate, joins the threads and prints one line.

  C's \<open>int\<close> is taken to be 32 bits wide, two's complement. The counters are
  \<open>32 word\<close>, so that additions wrap around; loop counters and the two parameters, which
  never leave the range of \<open>int\<close> once parsed, are \<open>int\<close>.
\<close>

type_synonym cint = "32 word"

subsection \<open>Command line\<close>

text \<open>
  \<open>atoi\<close> belongs to the C library. It skips white space, reads an optional sign and the
  longest run of decimal digits, and yields 0 when there is no digit. A numeral that does
  not fit an \<open>int\<close> is undefined behaviour in C; here the mathematical value is returned.
\<close>

definition isspace :: "char \<Rightarrow> bool" where
  "isspace c = (c \<in> set [CHR '' '', CHR 0x09, CHR 0x0A, CHR 0x0B, CHR 0x0C, CHR 0x0D])"

definition isdigit :: "char \<Rightarrow> bool" where
  "isdigit c = (48 \<le> (of_char c :: nat) \<and> (of_char c :: nat) \<le> 57)"

fun digits_val :: "int \<Rightarrow> string \<Rightarrow> int" where
  "digits_val acc [] = acc"
| "digits_val acc (c # cs) =
     (if isdigit c then digits_val (10 * acc + (int (of_char c) - 48)) cs else acc)"

definition atoi :: "string \<Rightarrow> int" where
  "atoi str =
     (case dropWhile isspace str of
        [] \<Rightarrow> 0
      | c # cs \<Rightarrow>
          if c = CHR ''-'' then - digits_val 0 cs
          else if c = CHR ''+'' then digits_val 0 cs
          else digits_val 0 (c # cs))"

text \<open>
  The loop of \<open>main\<close> over \<open>argv\<close> (lines 122 to 132). \<open>argc\<close> is \<open>length argv\<close>; the pair
  carries \<open>t\<close> and \<open>i\<close>. A flag consumes the token after it, whatever that token is.
\<close>

function parse_loop :: "string list \<Rightarrow> nat \<Rightarrow> int \<times> int \<Rightarrow> int \<times> int" where
  "parse_loop argv argcIterator (t, i) =
     (if int argcIterator < int (length argv) - 1 then
        (if argv ! argcIterator = ''-t'' then
           parse_loop argv (argcIterator + 1 + 1) (atoi (argv ! (argcIterator + 1)), i)
         else if argv ! argcIterator = ''-i'' then
           parse_loop argv (argcIterator + 1 + 1) (t, atoi (argv ! (argcIterator + 1)))
         else parse_loop argv (argcIterator + 1) (t, i))
      else (t, i))"
  by pat_completeness auto
termination
  by (relation "measure (\<lambda>(argv, k, _). length argv - k)") auto

definition parse_args :: "string list \<Rightarrow> int \<times> int" where
  "parse_args argv = parse_loop argv 1 (4, 10000)"

text \<open>
  The command line as the loop reads it: a flag with its value, or any other token.
\<close>

datatype arg_group = Flag_t string | Flag_i string | Other string

fun tokens :: "arg_group \<Rightarrow> string list" where
  "tokens (Flag_t v) = [''-t'', v]"
| "tokens (Flag_i v) = [''-i'', v]"
| "tokens (Other x) = [x]"

fun no_flag :: "arg_group \<Rightarrow> bool" where
  "no_flag (Other x) = (x \<noteq> ''-t'' \<and> x \<noteq> ''-i'')"
| "no_flag _ = True"

fun t_values :: "arg_group list \<Rightarrow> string list" where
  "t_values [] = []"
| "t_values (Flag_t v # gs) = v # t_values gs"
| "t_values (_ # gs) = t_values gs"

fun i_values :: "arg_group list \<Rightarrow> string list" where
  "i_values [] = []"
| "i_values (Flag_i v # gs) = v # i_values gs"
| "i_values (_ # gs) = i_values gs"

definition last_or :: "int \<Rightarrow> string list \<Rightarrow> int" where
  "last_or d vs = (if vs = [] then d else atoi (last vs))"

subsection \<open>Threads and shared state\<close>

datatype strategy = RaceCondition | MutexLock | LockGuard | Atomic | LocalCounter

text \<open>
  Where a worker thread stands in its function: the busy wait on \<open>start\<close>, the calls
  that take and release \<open>sharedCounter_mtx\<close> (explicit in \<open>incrementiTimesMutexLock\<close>, the
  constructor and destructor of the \<open>lock_guard\<close> in \<open>incrementiTimesLockGuard\<close>), the
  test of the \<open>for\<close> loop, and the body. \<open>++x\<close> on a plain \<open>int\<close> is a read followed
  by a write; \<open>fetch_add\<close> is one step.
\<close>

datatype wpc =
  W_spin | W_lock | W_guard | W_test | W_load | W_store | W_fetch_add
  | W_unlock | W_scope_exit | W_return

record worker =
  w_fn :: strategy
  w_iterator :: nat
  w_pc :: wpc
  incrementCounter :: int
  w_loaded :: cint

datatype mpc =
  M_header | M_spawn | M_thread | M_t1 | M_open | M_join | M_reduce | M_t2 | M_print
  | M_reset_counter | M_clear_threads | M_clear_slots | M_reset_start | M_exit

text \<open>What \<open>main\<close> has done so far, in order; each event names the trial it belongs to.\<close>

datatype event =
  E_push_slot strategy nat | E_spawn strategy nat | E_t1 strategy | E_open strategy
  | E_join strategy nat | E_reduce strategy nat | E_t2 strategy | E_print strategy
  | E_reset_counter strategy | E_clear_threads strategy | E_clear_slots strategy
  | E_reset_start strategy

text \<open>A printed line: the header, or a trial's name, final counter value and threads.\<close>

datatype line = Header | Data strategy int int

text \<open>
  The globals of the file, the locals of \<open>main\<close> (\<open>t\<close> and \<open>i\<close> are \<open>arg_t\<close> and \<open>arg_i\<close>),
  where \<open>main\<close> stands (\<open>trial\<close>, \<open>mpc\<close>, and \<open>iterator\<close>, which also holds the position of
  the range-based loops), and what has been printed. A \<open>std::thread\<close> in \<open>threadVector\<close>
  is the state of the thread it stands for. The mutex holds the index of its owner.
\<close>

record state =
  start :: bool
  sharedCounter_mtx :: "nat option"
  localCounterVector :: "cint list"
  arg_t :: int
  arg_i :: int
  sharedCounter :: cint
  sharedCounterAtomic :: cint
  threadVector :: "worker list"
  trial :: strategy
  mpc :: mpc
  iterator :: nat
  printed :: "line list"
  mlog :: "event list"

definition set_thread :: "nat \<Rightarrow> worker \<Rightarrow> state \<Rightarrow> state" where
  "set_thread k w s = s\<lparr>threadVector := (threadVector s)[k := w]\<rparr>"

subsection \<open>The five worker functions\<close>

text \<open>
  Each function takes the index \<open>k\<close> of the thread that runs it, the thread's own state
  and the program state, and performs one step. A thread that cannot go on (the gate is
  closed, the mutex is taken) leaves the state as it is.
\<close>

definition incrementiTimesRaceCondition :: "nat \<Rightarrow> worker \<Rightarrow> state \<Rightarrow> state" where
  "incrementiTimesRaceCondition k w s =
     (case w_pc w of
        W_spin \<Rightarrow>
          if start s then set_thread k (w\<lparr>w_pc := W_test, incrementCounter := 0\<rparr>) s else s
      | W_test \<Rightarrow>
          if incrementCounter w < arg_i s then set_thread k (w\<lparr>w_pc := W_load\<rparr>) s
          else set_thread k (w\<lparr>w_pc := W_return\<rparr>) s
      | W_load \<Rightarrow> set_thread k (w\<lparr>w_loaded := sharedCounter s, w_pc := W_store\<rparr>) s
      | W_store \<Rightarrow>
          set_thread k (w\<lparr>incrementCounter := incrementCounter w + 1, w_pc := W_test\<rparr>)
            (s\<lparr>sharedCounter := w_loaded w + 1\<rparr>)
      | _ \<Rightarrow> s)"

definition incrementiTimesMutexLock :: "nat \<Rightarrow> worker \<Rightarrow> state \<Rightarrow> state" where
  "incrementiTimesMutexLock k w s =
     (case w_pc w of
        W_spin \<Rightarrow> if start s then set_thread k (w\<lparr>w_pc := W_lock\<rparr>) s else s
      | W_lock \<Rightarrow>
          if sharedCounter_mtx s = None
          then set_thread k (w\<lparr>w_pc := W_test, incrementCounter := 0\<rparr>)
                 (s\<lparr>sharedCounter_mtx := Some k\<rparr>)
          else s
      | W_test \<Rightarrow>
          if incrementCounter w < arg_i s then set_thread k (w\<lparr>w_pc := W_load\<rparr>) s
          else set_thread k (w\<lparr>w_pc := W_unlock\<rparr>) s
      | W_load \<Rightarrow> set_thread k (w\<lparr>w_loaded := sharedCounter s, w_pc := W_store\<rparr>) s
      | W_store \<Rightarrow>
          set_thread k (w\<lparr>incrementCounter := incrementCounter w + 1, w_pc := W_test\<rparr>)
            (s\<lparr>sharedCounter := w_loaded w + 1\<rparr>)
      | W_unlock \<Rightarrow> set_thread k (w\<lparr>w_pc := W_return\<rparr>) (s\<lparr>sharedCounter_mtx := None\<rparr>)
      | _ \<Rightarrow> s)"

definition incrementiTimesLockGuard :: "nat \<Rightarrow> worker \<Rightarrow> state \<Rightarrow> state" where
  "incrementiTimesLockGuard k w s =
     (case w_pc w of
        W_spin \<Rightarrow> if start s then set_thread k (w\<lparr>w_pc := W_guard\<rparr>) s else s
      | W_guard \<Rightarrow>
          if sharedCounter_mtx s = None
          then set_thread k (w\<lparr>w_pc := W_test, incrementCounter := 0\<rparr>)
                 (s\<lparr>sharedCounter_mtx := Some k\<rparr>)
          else s
      | W_test \<Rightarrow>
          if incrementCounter w < arg_i s then set_thread k (w\<lparr>w_pc := W_load\<rparr>) s
          else set_thread k (w\<lparr>w_pc := W_scope_exit\<rparr>) s
      | W_load \<Rightarrow> set_thread k (w\<lparr>w_loaded := sharedCounter s, w_pc := W_store\<rparr>) s
      | W_store \<Rightarrow>
          set_thread k (w\<lparr>incrementCounter := incrementCounter w + 1, w_pc := W_test\<rparr>)
            (s\<lparr>sharedCounter := w_loaded w + 1\<rparr>)
      | W_scope_exit \<Rightarrow>
          set_thread k (w\<lparr>w_pc := W_return\<rparr>) (s\<lparr>sharedCounter_mtx := None\<rparr>)
      | _ \<Rightarrow> s)"

definition incrementiTimesAtomic :: "nat \<Rightarrow> worker \<Rightarrow> state \<Rightarrow> state" where
  "incrementiTimesAtomic k w s =
     (case w_pc w of
        W_spin \<Rightarrow>
          if start s then set_thread k (w\<lparr>w_pc := W_test, incrementCounter := 0\<rparr>) s else s
      | W_test \<Rightarrow>
          if incrementCounter w < arg_i s then set_thread k (w\<lparr>w_pc := W_fetch_add\<rparr>) s
          else set_thread k (w\<lparr>w_pc := W_return\<rparr>) s
      | W_fetch_add \<Rightarrow>
          set_thread k (w\<lparr>incrementCounter := incrementCounter w + 1, w_pc := W_test\<rparr>)
            (s\<lparr>sharedCounterAtomic := sharedCounterAtomic s + 1\<rparr>)
      | _ \<Rightarrow> s)"

text \<open>
  \<open>localCounterVector[iterator]\<close> outside the vector is undefined behaviour in C++. The
  model reads HOL's \<open>!\<close> and writes with \<open>[:=]\<close> there; \<open>slot_in_range\<close> below shows that
  no run gets there.
\<close>

definition incrementiTimesLocalCounter :: "nat \<Rightarrow> worker \<Rightarrow> state \<Rightarrow> state" where
  "incrementiTimesLocalCounter k w s =
     (case w_pc w of
        W_spin \<Rightarrow>
          if start s then set_thread k (w\<lparr>w_pc := W_test, incrementCounter := 0\<rparr>) s else s
      | W_test \<Rightarrow>
          if incrementCounter w < arg_i s then set_thread k (w\<lparr>w_pc := W_load\<rparr>) s
          else set_thread k (w\<lparr>w_pc := W_return\<rparr>) s
      | W_load \<Rightarrow>
          set_thread k (w\<lparr>w_loaded := localCounterVector s ! w_iterator w, w_pc := W_store\<rparr>) s
      | W_store \<Rightarrow>
          set_thread k (w\<lparr>incrementCounter := incrementCounter w + 1, w_pc := W_test\<rparr>)
            (s\<lparr>localCounterVector := (localCounterVector s)[w_iterator w := w_loaded w + 1]\<rparr>)
      | _ \<Rightarrow> s)"

definition worker_step :: "nat \<Rightarrow> state \<Rightarrow> state" where
  "worker_step k s =
     (if k < length (threadVector s) then
        (let w = threadVector s ! k in
         case w_fn w of
           RaceCondition \<Rightarrow> incrementiTimesRaceCondition k w s
         | MutexLock \<Rightarrow> incrementiTimesMutexLock k w s
         | LockGuard \<Rightarrow> incrementiTimesLockGuard k w s
         | Atomic \<Rightarrow> incrementiTimesAtomic k w s
         | LocalCounter \<Rightarrow> incrementiTimesLocalCounter k w s)
      else s)"

subsection \<open>The runner\<close>

definition new_thread :: "strategy \<Rightarrow> nat \<Rightarrow> worker" where
  "new_thread f k =
     \<lparr>w_fn = f, w_iterator = k, w_pc = W_spin, incrementCounter = 0, w_loaded = 0\<rparr>"

fun next_trial :: "strategy \<Rightarrow> strategy option" where
  "next_trial RaceCondition = Some MutexLock"
| "next_trial MutexLock = Some LockGuard"
| "next_trial LockGuard = Some Atomic"
| "next_trial Atomic = Some LocalCounter"
| "next_trial LocalCounter = None"

definition record_event :: "event \<Rightarrow> state \<Rightarrow> state" where
  "record_event e s = s\<lparr>mlog := mlog s @ [e]\<rparr>"

text \<open>
  One step of \<open>main\<close> after the command line is parsed (lines 134 to 255). The five
  trials are five copies of the same statements; they differ in the function the threads
  run, in the counter that is printed and reset (\<open>sharedCounterAtomic\<close> in the fourth), and
  in the three extra statements of the fifth: \<open>push_back(0)\<close> before each thread, the sum
  over \<open>localCounterVector\<close> after the joins, and \<open>localCounterVector.clear()\<close>.
  \<open>join\<close> waits until the thread has returned.
\<close>

definition main_step :: "state \<Rightarrow> state" where
  "main_step s =
     (case mpc s of
        M_header \<Rightarrow> s\<lparr>printed := printed s @ [Header], mpc := M_spawn, iterator := 0\<rparr>
      | M_spawn \<Rightarrow>
          if int (iterator s) < arg_t s then
            (if trial s = LocalCounter then
               record_event (E_push_slot (trial s) (iterator s))
                 (s\<lparr>localCounterVector := localCounterVector s @ [0], mpc := M_thread\<rparr>)
             else
               record_event (E_spawn (trial s) (iterator s))
                 (s\<lparr>threadVector := threadVector s @ [new_thread (trial s) (iterator s)],
                    iterator := iterator s + 1\<rparr>))
          else s\<lparr>mpc := M_t1\<rparr>
      | M_thread \<Rightarrow>
          record_event (E_spawn (trial s) (iterator s))
            (s\<lparr>threadVector := threadVector s @ [new_thread (trial s) (iterator s)],
               iterator := iterator s + 1, mpc := M_spawn\<rparr>)
      | M_t1 \<Rightarrow> record_event (E_t1 (trial s)) (s\<lparr>mpc := M_open\<rparr>)
      | M_open \<Rightarrow> record_event (E_open (trial s)) (s\<lparr>start := True, mpc := M_join, iterator := 0\<rparr>)
      | M_join \<Rightarrow>
          if iterator s < length (threadVector s) then
            (if w_pc (threadVector s ! iterator s) = W_return
             then record_event (E_join (trial s) (iterator s)) (s\<lparr>iterator := iterator s + 1\<rparr>)
             else s)
          else s\<lparr>mpc := (if trial s = LocalCounter then M_reduce else M_t2), iterator := 0\<rparr>
      | M_reduce \<Rightarrow>
          if iterator s < length (localCounterVector s) then
            record_event (E_reduce (trial s) (iterator s))
              (s\<lparr>sharedCounter := sharedCounter s + localCounterVector s ! iterator s,
                 iterator := iterator s + 1\<rparr>)
          else s\<lparr>mpc := M_t2\<rparr>
      | M_t2 \<Rightarrow> record_event (E_t2 (trial s)) (s\<lparr>mpc := M_print\<rparr>)
      | M_print \<Rightarrow>
          record_event (E_print (trial s))
            (s\<lparr>printed := printed s @
                  [Data (trial s)
                     (sint (if trial s = Atomic then sharedCounterAtomic s else sharedCounter s))
                     (arg_t s)],
               mpc := M_reset_counter\<rparr>)
      | M_reset_counter \<Rightarrow>
          record_event (E_reset_counter (trial s))
            (if trial s = Atomic then s\<lparr>sharedCounterAtomic := 0, mpc := M_clear_threads\<rparr>
             else s\<lparr>sharedCounter := 0, mpc := M_clear_threads\<rparr>)
      | M_clear_threads \<Rightarrow>
          record_event (E_clear_threads (trial s))
            (s\<lparr>threadVector := [],
               mpc := (if trial s = LocalCounter then M_clear_slots else M_reset_start)\<rparr>)
      | M_clear_slots \<Rightarrow>
          record_event (E_clear_slots (trial s)) (s\<lparr>localCounterVector := [], mpc := M_reset_start\<rparr>)
      | M_reset_start \<Rightarrow>
          record_event (E_reset_start (trial s))
            (case next_trial (trial s) of
               Some f \<Rightarrow> s\<lparr>start := False, trial := f, mpc := M_spawn, iterator := 0\<rparr>
             | None \<Rightarrow> s\<lparr>start := False, mpc := M_exit\<rparr>)
      | M_exit \<Rightarrow> s)"

subsection \<open>Interleaving\<close>

text \<open>
  A schedule names, step by step, the thread that moves next: \<open>main\<close> or the thread at an
  index of \<open>threadVector\<close>. Every interleaving of the threads' steps is the run of some
  schedule; a thread that waits, or an index with no thread, takes an idle step.
\<close>

datatype tid = Main | Worker nat

fun step :: "tid \<Rightarrow> state \<Rightarrow> state" where
  "step Main s = main_step s"
| "step (Worker k) s = worker_step k s"

definition exec :: "tid list \<Rightarrow> state \<Rightarrow> state" where
  "exec sched s = fold step sched s"

definition init :: "int \<Rightarrow> int \<Rightarrow> state" where
  "init t i =
     \<lparr>start = False, sharedCounter_mtx = None, localCounterVector = [],
      arg_t = t, arg_i = i, sharedCounter = 0, sharedCounterAtomic = 0,
      threadVector = [], trial = RaceCondition, mpc = M_header, iterator = 0,
      printed = [], mlog = []\<rparr>"

definition program :: "string list \<Rightarrow> tid list \<Rightarrow> state" where
  "program argv sched = (case parse_args argv of (t, i) \<Rightarrow> exec sched (init t i))"

subsection \<open>Reported throughput\<close>

text \<open>
  Line 154 and its four siblings print \<open>sharedCounter*1000/seconds\<close>. The product is
  formed in \<open>int\<close> before the division by the \<open>double\<close>; \<open>seconds\<close> is read as a real.
\<close>

definition throughput_numerator :: "cint \<Rightarrow> int" where
  "throughput_numerator final = sint (final * 1000)"

definition throughput :: "cint \<Rightarrow> real \<Rightarrow> real" where
  "throughput final seconds = real_of_int (throughput_numerator final) / seconds"

section \<open>Invariants of the runs\<close>

definition workers :: "state \<Rightarrow> nat" where
  "workers s = nat (arg_t s)"

definition rounds :: "state \<Rightarrow> int" where
  "rounds s = int (nat (arg_i s))"

definition returned :: "state \<Rightarrow> nat \<Rightarrow> bool" where
  "returned s n = (\<forall>j < n. w_pc (threadVector s ! j) = W_return)"

definition slots :: "state \<Rightarrow> nat \<Rightarrow> bool" where
  "slots s n = (length (localCounterVector s) = (if trial s = LocalCounter then n else 0))"

fun valid_pc :: "strategy \<Rightarrow> wpc \<Rightarrow> bool" where
  "valid_pc RaceCondition p = (p \<in> {W_spin, W_test, W_load, W_store, W_return})"
| "valid_pc MutexLock p = (p \<in> {W_spin, W_lock, W_test, W_load, W_store, W_unlock, W_return})"
| "valid_pc LockGuard p =
     (p \<in> {W_spin, W_guard, W_test, W_load, W_store, W_scope_exit, W_return})"
| "valid_pc Atomic p = (p \<in> {W_spin, W_test, W_fetch_add, W_return})"
| "valid_pc LocalCounter p = (p \<in> {W_spin, W_test, W_load, W_store, W_return})"

definition thread_ok :: "state \<Rightarrow> nat \<Rightarrow> worker \<Rightarrow> bool" where
  "thread_ok s k w =
     (w_fn w = trial s \<and> w_iterator w = k \<and> valid_pc (trial s) (w_pc w)
      \<and> 0 \<le> incrementCounter w \<and> incrementCounter w \<le> rounds s
      \<and> (w_pc w \<in> {W_load, W_store, W_fetch_add} \<longrightarrow> incrementCounter w < arg_i s)
      \<and> (w_pc w \<in> {W_unlock, W_scope_exit, W_return} \<longrightarrow> incrementCounter w = rounds s)
      \<and> (w_pc w \<in> {W_spin, W_lock, W_guard} \<longrightarrow> incrementCounter w = 0)
      \<and> (\<not> start s \<longrightarrow> w_pc w = W_spin))"

definition phase_ok :: "state \<Rightarrow> bool" where
  "phase_ok s =
     (case mpc s of
        M_header \<Rightarrow>
          \<not> start s \<and> threadVector s = [] \<and> localCounterVector s = []
          \<and> trial s = RaceCondition
      | M_spawn \<Rightarrow>
          \<not> start s \<and> length (threadVector s) = iterator s \<and> iterator s \<le> workers s
          \<and> slots s (iterator s)
      | M_thread \<Rightarrow>
          \<not> start s \<and> length (threadVector s) = iterator s \<and> iterator s < workers s
          \<and> trial s = LocalCounter \<and> slots s (iterator s + 1)
      | M_t1 \<Rightarrow>
          \<not> start s \<and> length (threadVector s) = workers s \<and> slots s (workers s)
      | M_open \<Rightarrow>
          \<not> start s \<and> length (threadVector s) = workers s \<and> slots s (workers s)
      | M_join \<Rightarrow>
          start s \<and> length (threadVector s) = workers s \<and> slots s (workers s)
          \<and> iterator s \<le> workers s \<and> returned s (iterator s)
      | M_reduce \<Rightarrow>
          start s \<and> length (threadVector s) = workers s \<and> slots s (workers s)
          \<and> iterator s \<le> workers s \<and> returned s (workers s) \<and> trial s = LocalCounter
      | M_clear_slots \<Rightarrow>
          start s \<and> threadVector s = [] \<and> slots s (workers s) \<and> trial s = LocalCounter
      | M_reset_start \<Rightarrow> start s \<and> threadVector s = [] \<and> localCounterVector s = []
      | M_exit \<Rightarrow>
          \<not> start s \<and> threadVector s = [] \<and> localCounterVector s = []
          \<and> trial s = LocalCounter
      | _ \<Rightarrow>
          start s \<and> length (threadVector s) = workers s \<and> slots s (workers s)
          \<and> returned s (workers s))"

definition ctl :: "state \<Rightarrow> bool" where
  "ctl s =
     ((\<forall>k < length (threadVector s). thread_ok s k (threadVector s ! k)) \<and> phase_ok s)"

definition in_cs :: "worker \<Rightarrow> bool" where
  "in_cs w = (w_pc w \<in> {W_test, W_load, W_store, W_unlock, W_scope_exit})"

definition locks :: "strategy \<Rightarrow> bool" where
  "locks f = (f = MutexLock \<or> f = LockGuard)"

definition mtx_ok :: "state \<Rightarrow> bool" where
  "mtx_ok s =
     ((\<forall>j < length (threadVector s).
         (sharedCounter_mtx s = Some j) = (locks (trial s) \<and> in_cs (threadVector s ! j)))
      \<and> (case sharedCounter_mtx s of None \<Rightarrow> True | Some k \<Rightarrow> k < length (threadVector s)))"

definition total :: "worker list \<Rightarrow> int" where
  "total ws = sum_list (map incrementCounter ws)"

definition atomic_ok :: "state \<Rightarrow> bool" where
  "atomic_ok s =
     (sharedCounterAtomic s =
        (if trial s = Atomic \<and> mpc s \<noteq> M_clear_threads
         then word_of_int (total (threadVector s)) else 0))"

definition quiet :: "state \<Rightarrow> bool" where
  "quiet s = (mpc s \<notin> {M_join, M_reduce, M_t2, M_print, M_reset_counter})"

definition plain_ok :: "state \<Rightarrow> bool" where
  "plain_ok s =
     ((quiet s \<longrightarrow> sharedCounter s = 0)
      \<and> (trial s = Atomic \<longrightarrow> sharedCounter s = 0)
      \<and> (locks (trial s) \<longrightarrow> \<not> quiet s \<longrightarrow>
           sharedCounter s = word_of_int (total (threadVector s)))
      \<and> (locks (trial s) \<longrightarrow>
           (\<forall>j < length (threadVector s).
              w_pc (threadVector s ! j) = W_store \<longrightarrow>
                w_loaded (threadVector s ! j) = sharedCounter s)))"

definition bounded :: "cint \<Rightarrow> int \<Rightarrow> bool" where
  "bounded c n = (\<exists>m. 0 \<le> m \<and> m \<le> n \<and> c = word_of_int m)"

definition race_ok :: "state \<Rightarrow> bool" where
  "race_ok s =
     (trial s = RaceCondition \<longrightarrow>
        (\<not> quiet s \<longrightarrow> bounded (sharedCounter s) (total (threadVector s)))
        \<and> (\<forall>j < length (threadVector s).
              w_pc (threadVector s ! j) = W_store \<longrightarrow>
                bounded (w_loaded (threadVector s ! j)) (total (threadVector s)))
        \<and> (length (threadVector s) \<le> 1 \<longrightarrow>
              (\<not> quiet s \<longrightarrow> sharedCounter s = word_of_int (total (threadVector s)))
              \<and> (\<forall>j < length (threadVector s).
                    w_pc (threadVector s ! j) = W_store \<longrightarrow>
                      w_loaded (threadVector s ! j) = sharedCounter s)))"

definition local_ok :: "state \<Rightarrow> bool" where
  "local_ok s =
     (trial s = LocalCounter \<longrightarrow>
        (\<forall>j < length (threadVector s).
           localCounterVector s ! j = word_of_int (incrementCounter (threadVector s ! j)))
        \<and> (\<forall>j < length (threadVector s).
              w_pc (threadVector s ! j) = W_store \<longrightarrow>
                w_loaded (threadVector s ! j) = localCounterVector s ! j)
        \<and> (mpc s = M_thread \<longrightarrow> localCounterVector s ! iterator s = 0)
        \<and> (mpc s = M_join \<longrightarrow> sharedCounter s = 0)
        \<and> (mpc s = M_reduce \<longrightarrow>
              sharedCounter s = sum_list (take (iterator s) (localCounterVector s)))
        \<and> (mpc s \<in> {M_t2, M_print, M_reset_counter} \<longrightarrow>
              sharedCounter s = word_of_int (total (threadVector s))))"

fun earlier :: "strategy \<Rightarrow> strategy list" where
  "earlier RaceCondition = []"
| "earlier MutexLock = [RaceCondition]"
| "earlier LockGuard = [RaceCondition, MutexLock]"
| "earlier Atomic = [RaceCondition, MutexLock, LockGuard]"
| "earlier LocalCounter = [RaceCondition, MutexLock, LockGuard, Atomic]"

definition reported :: "state \<Rightarrow> strategy list" where
  "reported s =
     earlier (trial s) @
     (if mpc s \<in> {M_reset_counter, M_clear_threads, M_clear_slots, M_reset_start, M_exit}
      then [trial s] else [])"

fun line_name :: "line \<Rightarrow> strategy option" where
  "line_name Header = None"
| "line_name (Data f v n) = Some f"

definition product :: "int \<Rightarrow> int \<Rightarrow> int" where
  "product t i = int (nat t) * int (nat i)"

definition final_ok :: "int \<Rightarrow> int \<Rightarrow> strategy \<Rightarrow> int \<Rightarrow> bool" where
  "final_ok t i f v =
     (if f = RaceCondition
      then (\<exists>m. 0 \<le> m \<and> m \<le> product t i \<and> v = sint (word_of_int m :: cint)
                \<and> (nat t \<le> 1 \<longrightarrow> m = product t i))
      else v = sint (word_of_int (product t i) :: cint))"

fun line_ok :: "int \<Rightarrow> int \<Rightarrow> line \<Rightarrow> bool" where
  "line_ok t i Header = True"
| "line_ok t i (Data f v n) = (n = t \<and> final_ok t i f v)"

definition out_ok :: "state \<Rightarrow> bool" where
  "out_ok s =
     (map line_name (printed s) = (if mpc s = M_header then [] else None # map Some (reported s))
      \<and> list_all (line_ok (arg_t s) (arg_i s)) (printed s))"

fun later :: "strategy \<Rightarrow> strategy list" where
  "later RaceCondition = [MutexLock, LockGuard, Atomic, LocalCounter]"
| "later MutexLock = [LockGuard, Atomic, LocalCounter]"
| "later LockGuard = [Atomic, LocalCounter]"
| "later Atomic = [LocalCounter]"
| "later LocalCounter = []"

definition spawn_events :: "strategy \<Rightarrow> nat \<Rightarrow> nat \<Rightarrow> event list" where
  "spawn_events f a n =
     concat (map (\<lambda>k. (if f = LocalCounter then [E_push_slot f k] else []) @ [E_spawn f k]) [a..<n])"

definition reduce_events :: "strategy \<Rightarrow> nat \<Rightarrow> nat \<Rightarrow> event list" where
  "reduce_events f a n = (if f = LocalCounter then map (E_reduce f) [a..<n] else [])"

definition end_events :: "strategy \<Rightarrow> event list" where
  "end_events f =
     [E_t2 f, E_print f, E_reset_counter f, E_clear_threads f]
     @ (if f = LocalCounter then [E_clear_slots f] else []) @ [E_reset_start f]"

definition tail_events :: "strategy \<Rightarrow> nat \<Rightarrow> mpc \<Rightarrow> nat \<Rightarrow> event list" where
  "tail_events f n pc k =
     (case pc of
        M_header \<Rightarrow>
          spawn_events f 0 n @ [E_t1 f, E_open f] @ map (E_join f) [0..<n]
          @ reduce_events f 0 n @ end_events f
      | M_spawn \<Rightarrow>
          spawn_events f k n @ [E_t1 f, E_open f] @ map (E_join f) [0..<n]
          @ reduce_events f 0 n @ end_events f
      | M_thread \<Rightarrow>
          E_spawn f k # spawn_events f (k + 1) n @ [E_t1 f, E_open f] @ map (E_join f) [0..<n]
          @ reduce_events f 0 n @ end_events f
      | M_t1 \<Rightarrow>
          [E_t1 f, E_open f] @ map (E_join f) [0..<n] @ reduce_events f 0 n @ end_events f
      | M_open \<Rightarrow> E_open f # map (E_join f) [0..<n] @ reduce_events f 0 n @ end_events f
      | M_join \<Rightarrow> map (E_join f) [k..<n] @ reduce_events f 0 n @ end_events f
      | M_reduce \<Rightarrow> reduce_events f k n @ end_events f
      | M_t2 \<Rightarrow> end_events f
      | M_print \<Rightarrow> drop 1 (end_events f)
      | M_reset_counter \<Rightarrow> drop 2 (end_events f)
      | M_clear_threads \<Rightarrow> drop 3 (end_events f)
      | M_clear_slots \<Rightarrow> drop 4 (end_events f)
      | M_reset_start \<Rightarrow> [E_reset_start f]
      | M_exit \<Rightarrow> [])"

definition trial_events :: "strategy \<Rightarrow> nat \<Rightarrow> event list" where
  "trial_events f n = tail_events f n M_spawn 0"

definition program_events :: "nat \<Rightarrow> event list" where
  "program_events n =
     concat (map (\<lambda>f. trial_events f n) [RaceCondition, MutexLock, LockGuard, Atomic, LocalCounter])"

definition future :: "state \<Rightarrow> event list" where
  "future s =
     tail_events (trial s) (workers s) (mpc s) (iterator s)
     @ concat (map (\<lambda>f. trial_events f (workers s)) (later (trial s)))"

definition log_ok :: "state \<Rightarrow> bool" where
  "log_ok s = (mlog s @ future s = program_events (workers s))"

definition inv :: "state \<Rightarrow> bool" where
  "inv s =
     (ctl s \<and> mtx_ok s \<and> atomic_ok s \<and> plain_ok s \<and> race_ok s \<and> local_ok s
      \<and> out_ok s \<and> log_ok s)"

definition trial_schedule :: "strategy \<Rightarrow> nat \<Rightarrow> nat \<Rightarrow> tid list" where
  "trial_schedule f n m =
     replicate ((if f = LocalCounter then 2 * n else n) + 3) Main
     @ concat (map (\<lambda>k. replicate (3 * m + 4) (Worker k)) [0..<n])
     @ replicate (if f = LocalCounter then 2 * n + 8 else n + 6) Main"

definition sequential_schedule :: "int \<Rightarrow> int \<Rightarrow> tid list" where
  "sequential_schedule t i =
     Main # concat (map (\<lambda>f. trial_schedule f (nat t) (nat i))
                      [RaceCondition, MutexLock, LockGuard, Atomic, LocalCounter])"

definition racy_schedule :: "tid list" where
  "racy_schedule =
     replicate 6 Main
     @ [Worker 0, Worker 0, Worker 0, Worker 1, Worker 1, Worker 1, Worker 1, Worker 1,
        Worker 0, Worker 0]
     @ replicate 5 Main"

definition before_t2 :: "strategy \<Rightarrow> nat \<Rightarrow> event list" where
  "before_t2 f n =
     concat (map (\<lambda>g. trial_events g n) (earlier f))
     @ spawn_events f 0 n @ [E_t1 f]"

definition after_t2 :: "strategy \<Rightarrow> nat \<Rightarrow> event list" where
  "after_t2 f n = drop 1 (end_events f) @ concat (map (\<lambda>g. trial_events g n) (later f))"

section \<open>Theorems\<close>

lemma parse_loop_groups:
  assumes "\<forall>g \<in> set gs. no_flag g" and "length trailing \<le> 1"
  shows "parse_loop (pre @ concat (map tokens gs) @ trailing) (length pre) (t, i)
         = (last_or t (t_values gs), last_or i (i_values gs))"
  using assms
proof (induction gs arbitrary: pre t i)
  case Nil
  then show ?case
    by (subst parse_loop.simps) (simp add: last_or_def)
next
  case (Cons g gs)
  let ?rest = "concat (map tokens gs) @ trailing"
  have wf: "\<forall>g \<in> set gs. no_flag g"
    using Cons.prems by simp
  show ?case
  proof (cases g)
    case (Flag_t v)
    let ?argv = "pre @ ''-t'' # v # ?rest"
    have ih: "parse_loop ((pre @ [''-t'', v]) @ ?rest) (length (pre @ [''-t'', v])) (atoi v, i)
              = (last_or (atoi v) (t_values gs), last_or i (i_values gs))"
      by (rule Cons.IH [OF wf Cons.prems(2)])
    have idx: "?argv ! length pre = ''-t''" "?argv ! Suc (length pre) = v"
      by (simp_all add: nth_append)
    have "parse_loop ?argv (length pre) (t, i) = parse_loop ?argv (length pre + 1 + 1) (atoi v, i)"
      using idx by (subst parse_loop.simps) simp
    with ih show ?thesis
      by (simp add: Flag_t last_or_def)
  next
    case (Flag_i v)
    let ?argv = "pre @ ''-i'' # v # ?rest"
    have ih: "parse_loop ((pre @ [''-i'', v]) @ ?rest) (length (pre @ [''-i'', v])) (t, atoi v)
              = (last_or t (t_values gs), last_or (atoi v) (i_values gs))"
      by (rule Cons.IH [OF wf Cons.prems(2)])
    have idx: "?argv ! length pre = ''-i''" "?argv ! Suc (length pre) = v"
      by (simp_all add: nth_append)
    have "parse_loop ?argv (length pre) (t, i) = parse_loop ?argv (length pre + 1 + 1) (t, atoi v)"
      using idx by (subst parse_loop.simps) simp
    with ih show ?thesis
      by (simp add: Flag_i last_or_def)
  next
    case (Other x)
    let ?argv = "pre @ x # ?rest"
    have nf: "x \<noteq> ''-t''" "x \<noteq> ''-i''"
      using Cons.prems(1) Other by simp_all
    have idx: "?argv ! length pre = x"
      by (simp add: nth_append)
    show ?thesis
    proof (cases "?rest = []")
      case True
      then have "gs = []"
        by (cases gs; cases "hd gs") auto
      moreover have "parse_loop ?argv (length pre) (t, i) = (t, i)"
        using True by (subst parse_loop.simps) simp
      ultimately show ?thesis
        by (simp add: Other last_or_def)
    next
      case False
      have ih: "parse_loop ((pre @ [x]) @ ?rest) (length (pre @ [x])) (t, i)
                = (last_or t (t_values gs), last_or i (i_values gs))"
        by (rule Cons.IH [OF wf Cons.prems(2)])
      have len: "0 < length ?rest"
        using False by blast
      have "parse_loop ?argv (length pre) (t, i) = parse_loop ?argv (length pre + 1) (t, i)"
        using idx nf len by (subst parse_loop.simps) simp
      with ih show ?thesis
        by (simp add: Other)
    qed
  qed
qed

text \<open>
  C6. With no flag the parser yields 4 and 10000; of several \<open>-t\<close> (or \<open>-i\<close>) flags the
  value after the last one is kept; a token left alone at the end of the command line,
  also \<open>-t\<close> or \<open>-i\<close>, changes nothing. The command line is the program name, then flags
  with their values and other tokens, then at most one token more.
\<close>

theorem parse_args_last_wins:
  assumes "\<forall>g \<in> set gs. no_flag g" and "length trailing \<le> 1"
  shows "parse_args (prog # concat (map tokens gs) @ trailing)
         = (if t_values gs = [] then 4 else atoi (last (t_values gs)),
            if i_values gs = [] then 10000 else atoi (last (i_values gs)))"
  using parse_loop_groups [OF assms, of "[prog]" 4 10000]
  by (simp add: parse_args_def last_or_def)

theorem parse_args_last_wins_witness:
  "list_all no_flag [Flag_t ''3'', Other ''x'', Flag_i ''7'', Flag_t ''5'']
   \<and> length [''-i''] \<le> 1
   \<and> parse_args [''parcount'', ''-t'', ''3'', ''x'', ''-i'', ''7'', ''-t'', ''5'', ''-i'']
       = (5, 7)
   \<and> parse_args [''parcount''] = (4, 10000)
   \<and> parse_args [''parcount'', ''-t''] = (4, 10000)"
  using parse_args_last_wins [of "[Flag_t ''3'', Other ''x'', Flag_i ''7'', Flag_t ''5'']" "[''-i'']" "''parcount''"]
    parse_args_last_wins [of "[]" "[]" "''parcount''"]
    parse_args_last_wins [of "[]" "[''-t'']" "''parcount''"]
  by (simp add: atoi_def isspace_def isdigit_def)

section \<open>Proofs of the invariants\<close>

lemma valid_pc_spin [simp]: "valid_pc f W_spin"
  by (cases f) simp_all

lemma next_trial_None [simp]: "(next_trial f = None) = (f = LocalCounter)"
  by (cases f) simp_all

lemma ctl_init: "ctl (init t i)"
  by (simp add: ctl_def phase_ok_def init_def)

lemma main_step_frame [simp]:
  "sharedCounter_mtx (main_step s) = sharedCounter_mtx s"
  "arg_t (main_step s) = arg_t s"
  "arg_i (main_step s) = arg_i s"
  by (cases "mpc s"; simp add: main_step_def record_event_def split: option.splits)+

lemma main_step_threads:
  "threadVector (main_step s) =
     (if mpc s = M_thread \<or> mpc s = M_spawn \<and> int (iterator s) < arg_t s \<and> trial s \<noteq> LocalCounter
      then threadVector s @ [new_thread (trial s) (iterator s)]
      else if mpc s = M_clear_threads then [] else threadVector s)"
  by (cases "mpc s"; simp add: main_step_def record_event_def split: option.splits)

lemma main_step_trial:
  "trial (main_step s) =
     (if mpc s = M_reset_start then (case next_trial (trial s) of Some f \<Rightarrow> f | None \<Rightarrow> trial s)
      else trial s)"
  by (cases "mpc s"; simp add: main_step_def record_event_def split: option.splits)

lemma main_step_start:
  "start (main_step s) =
     (if mpc s = M_open then True else if mpc s = M_reset_start then False else start s)"
  by (cases "mpc s"; simp add: main_step_def record_event_def split: option.splits)

lemma phase_main: "phase_ok s \<Longrightarrow> phase_ok (main_step s)"
  by (cases "mpc s")
     (auto simp: phase_ok_def main_step_def record_event_def slots_def returned_def workers_def
        less_Suc_eq split: option.splits)

lemma thread_ok_weaken:
  "thread_ok s k w \<Longrightarrow> trial s' = trial s \<Longrightarrow> arg_i s' = arg_i s \<Longrightarrow> (start s \<longrightarrow> start s')
   \<Longrightarrow> thread_ok s' k w"
  by (auto simp add: thread_ok_def rounds_def)

lemma thread_ok_new: "\<not> start s \<Longrightarrow> trial s = f \<Longrightarrow> thread_ok s k (new_thread f k)"
  by (simp add: thread_ok_def new_thread_def rounds_def)

lemma ctl_main:
  assumes "ctl s" shows "ctl (main_step s)"
proof -
  have ph: "phase_ok s" and th: "\<And>k. k < length (threadVector s) \<Longrightarrow> thread_ok s k (threadVector s ! k)"
    using assms by (simp_all add: ctl_def)
  have "thread_ok (main_step s) j (threadVector (main_step s) ! j)"
    if j: "j < length (threadVector (main_step s))" for j
  proof (cases "j < length (threadVector s)")
    case True
    have ne: "mpc s \<noteq> M_reset_start" "mpc s \<noteq> M_clear_threads"
      using ph True j by (auto simp: phase_ok_def main_step_threads)
    have "thread_ok (main_step s) j (threadVector s ! j)"
      using th [OF True] ne
      by (rule_tac thread_ok_weaken [of s]) (simp_all add: main_step_trial main_step_start)
    then show ?thesis
      using ne True by (simp add: main_step_threads nth_append)
  next
    case False
    then have new: "threadVector (main_step s) = threadVector s @ [new_thread (trial s) (iterator s)]"
      and jl: "j = length (threadVector s)"
      using j by (auto simp: main_step_threads split: if_splits)
    have sp: "mpc s = M_thread \<or> mpc s = M_spawn"
      using new by (auto simp: main_step_threads split: if_splits)
    then have "length (threadVector s) = iterator s" "\<not> start s"
      using ph by (auto simp: phase_ok_def)
    then have "thread_ok (main_step s) j (new_thread (trial s) j)"
      using sp jl
      by (intro thread_ok_new) (auto simp: main_step_start main_step_trial)
    then show ?thesis
      using \<open>length (threadVector s) = iterator s\<close> by (simp add: new jl nth_append)
  qed
  then show ?thesis
    using phase_main [OF ph] by (simp add: ctl_def)
qed

lemma set_thread_simps [simp]:
  "threadVector (set_thread k w s) = (threadVector s)[k := w]"
  "start (set_thread k w s) = start s"
  "sharedCounter_mtx (set_thread k w s) = sharedCounter_mtx s"
  "localCounterVector (set_thread k w s) = localCounterVector s"
  "arg_t (set_thread k w s) = arg_t s"
  "arg_i (set_thread k w s) = arg_i s"
  "sharedCounter (set_thread k w s) = sharedCounter s"
  "sharedCounterAtomic (set_thread k w s) = sharedCounterAtomic s"
  "trial (set_thread k w s) = trial s"
  "mpc (set_thread k w s) = mpc s"
  "iterator (set_thread k w s) = iterator s"
  "printed (set_thread k w s) = printed s"
  "mlog (set_thread k w s) = mlog s"
  by (simp_all add: set_thread_def)

lemmas worker_defs =
  incrementiTimesRaceCondition_def incrementiTimesMutexLock_def incrementiTimesLockGuard_def
  incrementiTimesAtomic_def incrementiTimesLocalCounter_def

lemma worker_step_frame [simp]:
  "mpc (worker_step k s) = mpc s"
  "start (worker_step k s) = start s"
  "trial (worker_step k s) = trial s"
  "iterator (worker_step k s) = iterator s"
  "arg_t (worker_step k s) = arg_t s"
  "arg_i (worker_step k s) = arg_i s"
  "printed (worker_step k s) = printed s"
  "mlog (worker_step k s) = mlog s"
  "length (threadVector (worker_step k s)) = length (threadVector s)"
  "length (localCounterVector (worker_step k s)) = length (localCounterVector s)"
  by (simp_all add: worker_step_def Let_def worker_defs split: strategy.splits wpc.splits)

lemma worker_step_nil [simp]:
  "(threadVector (worker_step k s) = []) = (threadVector s = [])"
  "(localCounterVector (worker_step k s) = []) = (localCounterVector s = [])"
  using worker_step_frame(9) [of k s] worker_step_frame(10) [of k s]
  by (metis length_0_conv)+

lemma worker_step_other:
  "j \<noteq> k \<Longrightarrow> threadVector (worker_step k s) ! j = threadVector s ! j"
  by (simp add: worker_step_def Let_def worker_defs split: strategy.splits wpc.splits)

lemma worker_step_returned:
  "w_pc (threadVector s ! j) = W_return \<Longrightarrow> w_pc (threadVector (worker_step k s) ! j) = W_return"
  by (cases "j = k") (simp_all add: worker_step_def Let_def worker_defs nth_list_update split: strategy.splits wpc.splits)

lemma thread_ok_frame:
  "trial s' = trial s \<Longrightarrow> arg_i s' = arg_i s \<Longrightarrow> start s' = start s
   \<Longrightarrow> thread_ok s' k w = thread_ok s k w"
  by (simp add: thread_ok_def rounds_def)

lemma worker_step_thread_ok:
  assumes "k < length (threadVector s)" and "thread_ok s k (threadVector s ! k)"
  shows "thread_ok s k (threadVector (worker_step k s) ! k)"
  using assms
  by (cases "w_fn (threadVector s ! k)"; cases "w_pc (threadVector s ! k)")
     (auto simp: worker_step_def Let_def worker_defs thread_ok_def rounds_def)

lemma ctl_worker: 
  assumes "ctl s" shows "ctl (worker_step k s)"
proof -
  have ok: "thread_ok (worker_step k s) j (threadVector (worker_step k s) ! j)"
    if "j < length (threadVector s)" for j
  proof -
    have "thread_ok s j (threadVector s ! j)"
      using assms that by (simp add: ctl_def)
    then have "thread_ok s j (threadVector (worker_step k s) ! j)"
      using that worker_step_thread_ok [of k s] worker_step_other [of j k s]
      by (cases "j = k") simp_all
    then show ?thesis
      by (simp add: thread_ok_frame [of "worker_step k s" s])
  qed
  have ret: "returned (worker_step k s) n" if "returned s n" for n
    using that by (simp add: returned_def worker_step_returned)
  have sl: "slots (worker_step k s) n = slots s n" for n
    by (simp add: slots_def)
  have wk: "workers (worker_step k s) = workers s"
    by (simp add: workers_def)
  have "phase_ok (worker_step k s)"
    using assms ret
    by (cases "mpc s") (simp_all add: ctl_def phase_ok_def sl wk)
  then show ?thesis
    using ok by (simp add: ctl_def)
qed

lemma mtx_okI:
  assumes "\<And>j. j < length (threadVector s) \<Longrightarrow>
             (sharedCounter_mtx s = Some j) = (locks (trial s) \<and> in_cs (threadVector s ! j))"
    and "\<And>k. sharedCounter_mtx s = Some k \<Longrightarrow> k < length (threadVector s)"
  shows "mtx_ok s"
  using assms by (simp add: mtx_ok_def split: option.splits)

lemma mtx_ok_held:
  "mtx_ok s \<Longrightarrow> j < length (threadVector s) \<Longrightarrow>
     (sharedCounter_mtx s = Some j) = (locks (trial s) \<and> in_cs (threadVector s ! j))"
  by (simp add: mtx_ok_def)

lemma mtx_ok_owner: "mtx_ok s \<Longrightarrow> sharedCounter_mtx s = Some k \<Longrightarrow> k < length (threadVector s)"
  by (simp add: mtx_ok_def split: option.splits)

lemma ctl_thread_ok: "ctl s \<Longrightarrow> k < length (threadVector s) \<Longrightarrow> thread_ok s k (threadVector s ! k)"
  by (simp add: ctl_def)

lemma ctl_valid_pc:
  "ctl s \<Longrightarrow> k < length (threadVector s) \<Longrightarrow> valid_pc (trial s) (w_pc (threadVector s ! k))"
  using ctl_thread_ok [of s k] by (auto simp: thread_ok_def)

lemma ctl_arg: "ctl s \<Longrightarrow> k < length (threadVector s) \<Longrightarrow> w_iterator (threadVector s ! k) = k"
  using ctl_thread_ok [of s k] by (simp add: thread_ok_def)

lemma ctl_no_threads:
  "ctl s \<Longrightarrow> mpc s \<in> {M_header, M_clear_slots, M_reset_start, M_exit} \<Longrightarrow> threadVector s = []"
  by (cases "mpc s") (simp_all add: ctl_def phase_ok_def)

lemma ctl_returned:
  "ctl s \<Longrightarrow> mpc s \<in> {M_reduce, M_t2, M_print, M_reset_counter, M_clear_threads}
   \<Longrightarrow> j < length (threadVector s) \<Longrightarrow> w_pc (threadVector s ! j) = W_return"
  by (cases "mpc s") (simp_all add: ctl_def phase_ok_def returned_def)

lemma ctl_spawning:
  "ctl s \<Longrightarrow> mpc s \<in> {M_spawn, M_thread} \<Longrightarrow> length (threadVector s) = iterator s"
  by (cases "mpc s") (simp_all add: ctl_def phase_ok_def)

lemma ctl_spawned:
  "ctl s \<Longrightarrow> mpc s \<notin> {M_header, M_spawn, M_thread, M_clear_slots, M_reset_start, M_exit}
   \<Longrightarrow> length (threadVector s) = workers s"
  by (cases "mpc s") (simp_all add: ctl_def phase_ok_def)

lemma ctl_start:
  "ctl s \<Longrightarrow> start s = (mpc s \<notin> {M_header, M_spawn, M_thread, M_t1, M_open, M_exit})"
  by (cases "mpc s") (simp_all add: ctl_def phase_ok_def)

lemma locks_simps [simp]:
  "locks MutexLock" "locks LockGuard" "\<not> locks RaceCondition" "\<not> locks Atomic"
  "\<not> locks LocalCounter"
  by (simp_all add: locks_def)

lemma in_cs_simps [simp]:
  "in_cs (w\<lparr>w_pc := p\<rparr>) = (p \<in> {W_test, W_load, W_store, W_unlock, W_scope_exit})"
  "in_cs (w\<lparr>incrementCounter := n\<rparr>) = in_cs w"
  "in_cs (w\<lparr>w_loaded := x\<rparr>) = in_cs w"
  "\<not> in_cs (new_thread f k)"
  by (simp_all add: in_cs_def new_thread_def)

lemma in_cs_pc: "w_pc w = p \<Longrightarrow> in_cs w = (p \<in> {W_test, W_load, W_store, W_unlock, W_scope_exit})"
  by (simp add: in_cs_def)

lemma mtx_init: "mtx_ok (init t i)"
  by (simp add: mtx_ok_def init_def)

lemma worker_step_eq:
  assumes "ctl s" and "k < length (threadVector s)"
  shows "worker_step k s =
    (case trial s of
       RaceCondition \<Rightarrow> incrementiTimesRaceCondition k (threadVector s ! k) s
     | MutexLock \<Rightarrow> incrementiTimesMutexLock k (threadVector s ! k) s
     | LockGuard \<Rightarrow> incrementiTimesLockGuard k (threadVector s ! k) s
     | Atomic \<Rightarrow> incrementiTimesAtomic k (threadVector s ! k) s
     | LocalCounter \<Rightarrow> incrementiTimesLocalCounter k (threadVector s ! k) s)"
proof -
  have "w_fn (threadVector s ! k) = trial s"
    using assms by (simp add: ctl_def thread_ok_def)
  then show ?thesis
    using assms(2) by (simp add: worker_step_def Let_def)
qed

lemma worker_step_idle: "\<not> k < length (threadVector s) \<Longrightarrow> worker_step k s = s"
  by (simp add: worker_step_def)

lemma mtx_main:
  assumes "ctl s" and "mtx_ok s" shows "mtx_ok (main_step s)"
proof (rule mtx_okI)
  fix k assume "sharedCounter_mtx (main_step s) = Some k"
  then have own: "sharedCounter_mtx s = Some k" by simp
  then have k: "k < length (threadVector s)"
    using assms(2) by (rule mtx_ok_owner [rotated])
  have cs: "in_cs (threadVector s ! k)"
    using mtx_ok_held [OF assms(2) k] own by simp
  have "mpc s \<noteq> M_clear_threads"
    using ctl_returned [OF assms(1), of k] k cs by (auto simp: in_cs_def)
  then show "k < length (threadVector (main_step s))"
    using k by (simp add: main_step_threads)
next
  fix j assume j: "j < length (threadVector (main_step s))"
  show "(sharedCounter_mtx (main_step s) = Some j)
        = (locks (trial (main_step s)) \<and> in_cs (threadVector (main_step s) ! j))"
  proof (cases "j < length (threadVector s)")
    case True
    have "mpc s \<noteq> M_reset_start" "mpc s \<noteq> M_clear_threads"
      using ctl_no_threads [OF assms(1)] True j by (auto simp: main_step_threads)
    then show ?thesis
      using mtx_ok_held [OF assms(2) True] True
      by (simp add: main_step_threads main_step_trial nth_append)
  next
    case False
    then have new: "threadVector (main_step s) = threadVector s @ [new_thread (trial s) (iterator s)]"
      and jl: "j = length (threadVector s)"
      using j by (auto simp: main_step_threads split: if_splits)
    have "mpc s \<noteq> M_reset_start"
      using new by (auto simp: main_step_threads split: if_splits)
    moreover have "sharedCounter_mtx s \<noteq> Some j"
      using mtx_ok_owner [OF assms(2), of j] jl by auto
    ultimately show ?thesis
      by (simp add: new jl main_step_trial)
  qed
qed

lemma mtx_worker:
  assumes "ctl s" and "mtx_ok s" shows "mtx_ok (worker_step k s)"
proof (cases "k < length (threadVector s)")
  case False
  then show ?thesis using assms by (simp add: worker_step_idle)
next
  case True
  note eq = worker_step_eq [OF assms(1) True]
  have cs_k: "in_cs (threadVector s ! k)
      = (w_pc (threadVector s ! k) \<in> {W_test, W_load, W_store, W_unlock, W_scope_exit})"
    by (simp add: in_cs_def)
  note hk = mtx_ok_held [OF assms(2) True]
  show ?thesis
  proof (rule mtx_okI)
    fix j assume "sharedCounter_mtx (worker_step k s) = Some j"
    then show "j < length (threadVector (worker_step k s))"
      using mtx_ok_owner [OF assms(2), of j] True
      by (cases "trial s"; cases "w_pc (threadVector s ! k)")
         (simp_all add: eq worker_defs split: if_splits)
  next
    fix j assume "j < length (threadVector (worker_step k s))"
    then have j: "j < length (threadVector s)" by simp
    note hj = mtx_ok_held [OF assms(2) j]
    show "(sharedCounter_mtx (worker_step k s) = Some j)
        = (locks (trial (worker_step k s)) \<and> in_cs (threadVector (worker_step k s) ! j))"
    proof (cases "j = k")
      case True
      then show ?thesis
        using hk \<open>k < length (threadVector s)\<close>
        by (cases "trial s"; cases "w_pc (threadVector s ! k)")
           (simp_all add: eq worker_defs cs_k)
    next
      case False
      then show ?thesis
        using hk hj \<open>k < length (threadVector s)\<close> j
        by (cases "trial s"; cases "w_pc (threadVector s ! k)")
           (auto simp add: eq worker_defs cs_k)
    qed
  qed
qed

lemma total_simps [simp]:
  "total [] = 0"
  "total (ws @ [new_thread f k]) = total ws"
  by (simp_all add: total_def new_thread_def)

lemma total_update:
  "k < length ws \<Longrightarrow> total (ws[k := w]) = total ws - incrementCounter (ws ! k) + incrementCounter w"
  unfolding total_def by (induction ws arbitrary: k) (auto split: nat.splits)

lemma total_const:
  assumes "\<forall>k < length ws. incrementCounter (ws ! k) = c"
  shows "total ws = int (length ws) * c"
proof -
  have "\<forall>w \<in> set ws. incrementCounter w = c"
    using assms by (auto simp: in_set_conv_nth)
  then show ?thesis
    unfolding total_def by (induction ws) (simp_all add: algebra_simps)
qed

lemma total_idle:
  assumes "ctl s" and "\<not> start s"
  shows "total (threadVector s) = 0"
proof -
  have "\<forall>k < length (threadVector s). incrementCounter (threadVector s ! k) = 0"
    using ctl_thread_ok [OF assms(1)] assms(2) by (simp add: thread_ok_def)
  then show ?thesis
    using total_const [of "threadVector s" 0] by simp
qed

lemma total_returned:
  assumes "ctl s" and "\<forall>j < length (threadVector s). w_pc (threadVector s ! j) = W_return"
  shows "total (threadVector s) = int (length (threadVector s)) * rounds s"
proof -
  have "\<forall>k < length (threadVector s). incrementCounter (threadVector s ! k) = rounds s"
    using ctl_thread_ok [OF assms(1)] assms(2) by (simp add: thread_ok_def)
  then show ?thesis
    by (rule total_const)
qed

lemma total_worker:
  assumes "ctl s" and "k < length (threadVector s)"
  shows "total (threadVector (worker_step k s)) =
     total (threadVector s)
     + (if w_pc (threadVector s ! k) = (if trial s = Atomic then W_fetch_add else W_store)
        then 1 else 0)"
proof -
  note eq = worker_step_eq [OF assms]
  have z: "w_pc (threadVector s ! k) \<in> {W_spin, W_lock, W_guard} \<Longrightarrow>
            incrementCounter (threadVector s ! k) = 0"
    using ctl_thread_ok [OF assms] by (simp add: thread_ok_def)
  show ?thesis
    using assms(2) z
    by (cases "trial s"; cases "w_pc (threadVector s ! k)")
       (simp_all add: eq worker_defs total_update)
qed

lemma atomic_init: "atomic_ok (init t i)"
  by (simp add: atomic_ok_def init_def)

lemma atomic_main:
  assumes "ctl s" and "atomic_ok s" shows "atomic_ok (main_step s)"
proof -
  have t0: "mpc s \<in> {M_header, M_clear_slots, M_reset_start, M_exit} \<Longrightarrow> threadVector s = []"
    using ctl_no_threads [OF assms(1)] by simp
  show ?thesis
    using assms(2) t0
    by (cases "mpc s")
       (simp_all add: atomic_ok_def main_step_def record_event_def split: option.splits)
qed

lemma atomic_worker:
  assumes "ctl s" and "atomic_ok s" shows "atomic_ok (worker_step k s)"
proof (cases "k < length (threadVector s)")
  case False
  then show ?thesis using assms by (simp add: worker_step_idle)
next
  case True
  note eq = worker_step_eq [OF assms(1) True]
  note tot = total_worker [OF assms(1) True]
  have fr: "sharedCounterAtomic (worker_step k s) =
      (if trial s = Atomic \<and> w_pc (threadVector s ! k) = W_fetch_add
       then sharedCounterAtomic s + 1 else sharedCounterAtomic s)"
    by (cases "trial s"; cases "w_pc (threadVector s ! k)") (simp_all add: eq worker_defs)
  have "mpc s = M_clear_threads \<Longrightarrow> w_pc (threadVector s ! k) = W_return"
    using ctl_returned [OF assms(1) _ True] by simp
  then show ?thesis
    using assms(2) by (auto simp add: atomic_ok_def fr tot)
qed

lemma quiet_idle:
  assumes "ctl s" and "quiet s"
  shows "worker_step k s = s"
proof (cases "k < length (threadVector s)")
  case False
  then show ?thesis by (simp add: worker_step_idle)
next
  case True
  have "w_pc (threadVector s ! k) = W_spin \<and> \<not> start s \<or> w_pc (threadVector s ! k) = W_return"
  proof (cases "start s")
    case False
    then show ?thesis
      using ctl_thread_ok [OF assms(1) True] by (simp add: thread_ok_def)
  next
    case st: True
    have "threadVector s \<noteq> []" using True by auto
    then have "mpc s = M_clear_threads"
      using ctl_no_threads [OF assms(1)] ctl_start [OF assms(1)] st assms(2)
      by (cases "mpc s") (simp_all add: quiet_def)
    then show ?thesis
      using ctl_returned [OF assms(1) _ True] by simp
  qed
  then show ?thesis
    by (cases "trial s") (auto simp: worker_step_eq [OF assms(1) True] worker_defs)
qed

lemma plain_okI:
  assumes "quiet s \<Longrightarrow> sharedCounter s = 0"
    and "trial s = Atomic \<Longrightarrow> sharedCounter s = 0"
    and "locks (trial s) \<Longrightarrow> \<not> quiet s \<Longrightarrow> sharedCounter s = word_of_int (total (threadVector s))"
    and "\<And>j. locks (trial s) \<Longrightarrow> j < length (threadVector s) \<Longrightarrow>
           w_pc (threadVector s ! j) = W_store \<Longrightarrow> w_loaded (threadVector s ! j) = sharedCounter s"
  shows "plain_ok s"
  using assms by (simp add: plain_ok_def)

lemma plain_okD:
  assumes "plain_ok s"
  shows "quiet s \<Longrightarrow> sharedCounter s = 0"
    and "trial s = Atomic \<Longrightarrow> sharedCounter s = 0"
    and "locks (trial s) \<Longrightarrow> \<not> quiet s \<Longrightarrow> sharedCounter s = word_of_int (total (threadVector s))"
    and "locks (trial s) \<Longrightarrow> j < length (threadVector s) \<Longrightarrow>
           w_pc (threadVector s ! j) = W_store \<Longrightarrow> w_loaded (threadVector s ! j) = sharedCounter s"
  using assms by (simp_all add: plain_ok_def)

lemma plain_init: "plain_ok (init t i)"
  by (simp add: plain_ok_def init_def)

lemma sharedCounter_worker:
  assumes "ctl s" and "k < length (threadVector s)"
  shows "sharedCounter (worker_step k s) =
     (if w_pc (threadVector s ! k) = W_store \<and> trial s \<notin> {Atomic, LocalCounter}
      then w_loaded (threadVector s ! k) + 1 else sharedCounter s)"
  by (cases "trial s"; cases "w_pc (threadVector s ! k)")
     (simp_all add: worker_step_eq [OF assms] worker_defs)

lemma store_worker:
  assumes "ctl s" and "k < length (threadVector s)"
    and "w_pc (threadVector (worker_step k s) ! k) = W_store"
  shows "w_pc (threadVector s ! k) = W_load \<and> trial s \<notin> {Atomic}
         \<and> w_loaded (threadVector (worker_step k s) ! k) =
             (if trial s = LocalCounter then localCounterVector s ! k else sharedCounter s)"
proof -
  have "w_iterator (threadVector s ! k) = k"
    using ctl_arg [OF assms(1,2)] .
  then show ?thesis
    using assms(2,3) ctl_valid_pc [OF assms(1,2)]
    by (cases "trial s"; cases "w_pc (threadVector s ! k)")
       (simp_all add: worker_step_eq [OF assms(1,2)] worker_defs split: if_splits)
qed

lemma cs_exclusive:
  assumes "mtx_ok s" and "locks (trial s)" and "k < length (threadVector s)"
    and "j < length (threadVector s)" and "in_cs (threadVector s ! k)" and "in_cs (threadVector s ! j)"
  shows "j = k"
  using mtx_ok_held [OF assms(1,3)] mtx_ok_held [OF assms(1,4)] assms(2,5,6) by simp

lemma main_step_sharedCounter:
  "sharedCounter (main_step s) =
     (if mpc s = M_reset_counter \<and> trial s \<noteq> Atomic then 0
      else if mpc s = M_reduce \<and> iterator s < length (localCounterVector s)
      then sharedCounter s + localCounterVector s ! iterator s
      else sharedCounter s)"
  by (cases "mpc s"; simp add: main_step_def record_event_def split: option.splits)

lemma main_step_mpc:
  "mpc (main_step s) =
     (case mpc s of
        M_header \<Rightarrow> M_spawn
      | M_spawn \<Rightarrow>
          if int (iterator s) < arg_t s then (if trial s = LocalCounter then M_thread else M_spawn)
          else M_t1
      | M_thread \<Rightarrow> M_spawn
      | M_t1 \<Rightarrow> M_open
      | M_open \<Rightarrow> M_join
      | M_join \<Rightarrow>
          if iterator s < length (threadVector s) then M_join
          else if trial s = LocalCounter then M_reduce else M_t2
      | M_reduce \<Rightarrow> if iterator s < length (localCounterVector s) then M_reduce else M_t2
      | M_t2 \<Rightarrow> M_print
      | M_print \<Rightarrow> M_reset_counter
      | M_reset_counter \<Rightarrow> M_clear_threads
      | M_clear_threads \<Rightarrow> if trial s = LocalCounter then M_clear_slots else M_reset_start
      | M_clear_slots \<Rightarrow> M_reset_start
      | M_reset_start \<Rightarrow> if trial s = LocalCounter then M_exit else M_spawn
      | M_exit \<Rightarrow> M_exit)"
  by (cases "mpc s"; cases "trial s"; simp add: main_step_def record_event_def)

lemma plain_main:
  assumes "ctl s" and "plain_ok s" shows "plain_ok (main_step s)"
proof (rule plain_okI)
  note d = plain_okD [OF assms(2)]
  note sc = main_step_sharedCounter [of s]
  note pc = main_step_mpc [of s]
  have idle: "quiet s \<Longrightarrow> mpc s \<noteq> M_clear_threads \<Longrightarrow> total (threadVector s) = 0"
    using total_idle [OF assms(1)] ctl_start [OF assms(1)] ctl_no_threads [OF assms(1)]
    by (cases "mpc s") (simp_all add: quiet_def)
  have red: "mpc s = M_reduce \<Longrightarrow> trial s = LocalCounter"
    using assms(1) by (simp add: ctl_def phase_ok_def)
  have rs: "mpc s = M_reset_start \<Longrightarrow> threadVector s = []"
    using ctl_no_threads [OF assms(1)] by simp
  show "sharedCounter (main_step s) = 0" if "quiet (main_step s)"
    using that d(1,2)
    by (cases "mpc s") (simp_all add: quiet_def sc pc split: if_splits)
  show "sharedCounter (main_step s) = 0" if "trial (main_step s) = Atomic"
    using that d(1,2) red
    by (cases "mpc s") (auto simp add: quiet_def sc main_step_trial split: if_splits option.splits)
  show "sharedCounter (main_step s) = word_of_int (total (threadVector (main_step s)))"
    if "locks (trial (main_step s))" "\<not> quiet (main_step s)"
    using that d(1,3) idle red
    by (cases "mpc s")
       (auto simp add: quiet_def sc pc main_step_trial main_step_threads split: if_splits)
  show "w_loaded (threadVector (main_step s) ! j) = sharedCounter (main_step s)"
    if "locks (trial (main_step s))" "j < length (threadVector (main_step s))"
      "w_pc (threadVector (main_step s) ! j) = W_store" for j
  proof -
    have tr: "trial (main_step s) = trial s"
      using that(2) rs by (auto simp: main_step_trial main_step_threads)
    have old: "j < length (threadVector s)" "threadVector (main_step s) ! j = threadVector s ! j"
      using that(2,3)
      by (auto simp: main_step_threads nth_append new_thread_def split: if_splits)
    have "mpc s \<noteq> M_reset_counter"
      using ctl_returned [OF assms(1) _ old(1)] that(3) old(2) by auto
    then have "sharedCounter (main_step s) = sharedCounter s"
      using red that(1) tr by (auto simp: sc)
    then show ?thesis
      using d(4) [of j] that tr old by simp
  qed
qed

lemma plain_worker:
  assumes "ctl s" and "mtx_ok s" and "plain_ok s" shows "plain_ok (worker_step k s)"
proof (cases "k < length (threadVector s) \<and> \<not> quiet s")
  case False
  then show ?thesis
    using assms quiet_idle [OF assms(1)] by (auto simp: worker_step_idle)
next
  case True
  then have k: "k < length (threadVector s)" and nq: "\<not> quiet s" by simp_all
  note d = plain_okD [OF assms(3)]
  note sc = sharedCounter_worker [OF assms(1) k]
  note tot = total_worker [OF assms(1) k]
  have q: "quiet (worker_step k s) = quiet s"
    by (simp add: quiet_def)
  show ?thesis
  proof (rule plain_okI)
    show "sharedCounter (worker_step k s) = 0" if "quiet (worker_step k s)"
      using that nq q by simp
    show "sharedCounter (worker_step k s) = 0" if "trial (worker_step k s) = Atomic"
      using that d(2) by (simp add: sc)
    show "sharedCounter (worker_step k s) = word_of_int (total (threadVector (worker_step k s)))"
      if "locks (trial (worker_step k s))" "\<not> quiet (worker_step k s)"
      using that d(3) d(4) [of k] k
      by (cases "trial s") (auto simp add: sc tot q)
    show "w_loaded (threadVector (worker_step k s) ! j) = sharedCounter (worker_step k s)"
      if l: "locks (trial (worker_step k s))" and jl: "j < length (threadVector (worker_step k s))"
        and st: "w_pc (threadVector (worker_step k s) ! j) = W_store" for j
    proof (cases "j = k")
      case True
      have "w_pc (threadVector s ! k) = W_load"
        and "w_loaded (threadVector (worker_step k s) ! k) =
             (if trial s = LocalCounter then localCounterVector s ! k else sharedCounter s)"
        using store_worker [OF assms(1) k] st True by simp_all
      then show ?thesis
        using l True by (auto simp add: sc)
    next
      case False
      have j: "j < length (threadVector s)" using jl by simp
      have same: "threadVector (worker_step k s) ! j = threadVector s ! j"
        using False by (rule worker_step_other)
      have csj: "in_cs (threadVector s ! j)"
        using st same by (simp add: in_cs_def)
      have "\<not> in_cs (threadVector s ! k)"
        using cs_exclusive [OF assms(2) _ k j _ csj] l False by auto
      then have "w_pc (threadVector s ! k) \<noteq> W_store"
        by (auto simp: in_cs_def)
      then have "sharedCounter (worker_step k s) = sharedCounter s"
        by (simp add: sc)
      then show ?thesis
        using d(4) [of j] l j st same by simp
    qed
  qed
qed

lemma worker_waits:
  assumes "ctl s" and "mpc s \<noteq> M_join"
  shows "worker_step k s = s"
proof (cases "quiet s")
  case True
  then show ?thesis by (rule quiet_idle [OF assms(1)])
next
  case False
  show ?thesis
  proof (cases "k < length (threadVector s)")
    case k: True
    have "mpc s \<in> {M_reduce, M_t2, M_print, M_reset_counter, M_clear_threads}"
      using False assms(2) by (auto simp add: quiet_def)
    then have "w_pc (threadVector s ! k) = W_return"
      by (rule ctl_returned [OF assms(1) _ k])
    then show ?thesis
      by (cases "trial s") (auto simp: worker_step_eq [OF assms(1) k] worker_defs)
  next
    case False
    then show ?thesis by (simp add: worker_step_idle)
  qed
qed

lemma bounded_zero [simp]: "bounded 0 0"
  unfolding bounded_def by (rule exI [of _ 0]) simp

lemma bounded_mono: "bounded c n \<Longrightarrow> n \<le> n' \<Longrightarrow> bounded c n'"
  unfolding bounded_def by force

lemma bounded_succ: "bounded c n \<Longrightarrow> bounded (c + 1) (n + 1)"
proof -
  assume "bounded c n"
  then obtain m where m: "0 \<le> m" "m \<le> n" "c = word_of_int m"
    unfolding bounded_def by blast
  have "0 \<le> m + 1 \<and> m + 1 \<le> n + 1 \<and> c + 1 = word_of_int (m + 1)"
    using m by simp
  then show ?thesis
    unfolding bounded_def by blast
qed

lemma bounded_exact: "0 \<le> n \<Longrightarrow> bounded (word_of_int n) n"
  unfolding bounded_def by blast

lemma race_okI:
  assumes "trial s = RaceCondition \<Longrightarrow> \<not> quiet s \<Longrightarrow> bounded (sharedCounter s) (total (threadVector s))"
    and "\<And>j. trial s = RaceCondition \<Longrightarrow> j < length (threadVector s) \<Longrightarrow>
           w_pc (threadVector s ! j) = W_store \<Longrightarrow>
           bounded (w_loaded (threadVector s ! j)) (total (threadVector s))"
    and "trial s = RaceCondition \<Longrightarrow> length (threadVector s) \<le> 1 \<Longrightarrow> \<not> quiet s \<Longrightarrow>
           sharedCounter s = word_of_int (total (threadVector s))"
    and "\<And>j. trial s = RaceCondition \<Longrightarrow> length (threadVector s) \<le> 1 \<Longrightarrow>
           j < length (threadVector s) \<Longrightarrow> w_pc (threadVector s ! j) = W_store \<Longrightarrow>
           w_loaded (threadVector s ! j) = sharedCounter s"
  shows "race_ok s"
  using assms by (simp add: race_ok_def)

lemma race_okD:
  assumes "race_ok s" and "trial s = RaceCondition"
  shows "\<not> quiet s \<Longrightarrow> bounded (sharedCounter s) (total (threadVector s))"
    and "j < length (threadVector s) \<Longrightarrow> w_pc (threadVector s ! j) = W_store \<Longrightarrow>
           bounded (w_loaded (threadVector s ! j)) (total (threadVector s))"
    and "length (threadVector s) \<le> 1 \<Longrightarrow> \<not> quiet s \<Longrightarrow>
           sharedCounter s = word_of_int (total (threadVector s))"
    and "length (threadVector s) \<le> 1 \<Longrightarrow> j < length (threadVector s) \<Longrightarrow>
           w_pc (threadVector s ! j) = W_store \<Longrightarrow> w_loaded (threadVector s ! j) = sharedCounter s"
  using assms by (simp_all add: race_ok_def)

lemma race_init: "race_ok (init t i)"
  by (simp add: race_ok_def init_def quiet_def)

lemma race_worker:
  assumes "ctl s" and "race_ok s" shows "race_ok (worker_step k s)"
proof (cases "k < length (threadVector s) \<and> mpc s = M_join \<and> trial s = RaceCondition")
  case False
  then show ?thesis
    using assms worker_waits [OF assms(1)] by (auto simp: worker_step_idle race_ok_def)
next
  case True
  then have k: "k < length (threadVector s)" and nq: "\<not> quiet s" and tr: "trial s = RaceCondition"
    by (simp_all add: quiet_def)
  note d = race_okD [OF assms(2) tr]
  note sc = sharedCounter_worker [OF assms(1) k]
  note tot = total_worker [OF assms(1) k]
  have q: "quiet (worker_step k s) = quiet s"
    by (simp add: quiet_def)
  have up: "total (threadVector s) \<le> total (threadVector (worker_step k s))"
    by (simp add: tot)
  show ?thesis
  proof (rule race_okI)
    show "bounded (sharedCounter (worker_step k s)) (total (threadVector (worker_step k s)))"
    proof (cases "w_pc (threadVector s ! k) = W_store")
      case True
      then show ?thesis
        using bounded_succ [OF d(2) [OF k True]] tr by (simp add: sc tot)
    next
      case False
      then show ?thesis
        using d(1) [OF nq] tr by (simp add: sc tot)
    qed
    then have b: "bounded (sharedCounter s) (total (threadVector (worker_step k s)))"
      if "w_pc (threadVector s ! k) \<noteq> W_store"
      using that by (simp add: sc)
    show "bounded (w_loaded (threadVector (worker_step k s) ! j))
            (total (threadVector (worker_step k s)))"
      if jl: "j < length (threadVector (worker_step k s))"
        and st: "w_pc (threadVector (worker_step k s) ! j) = W_store" for j
    proof (cases "j = k")
      case True
      have "w_pc (threadVector s ! k) = W_load"
        and "w_loaded (threadVector (worker_step k s) ! k) = sharedCounter s"
        using store_worker [OF assms(1) k] st True tr by simp_all
      then show ?thesis
        using b True by simp
    next
      case False
      have j: "j < length (threadVector s)" using jl by simp
      have same: "threadVector (worker_step k s) ! j = threadVector s ! j"
        using False by (rule worker_step_other)
      show ?thesis
        using bounded_mono [OF d(2) [OF j] up] st same by simp
    qed
    show "sharedCounter (worker_step k s) = word_of_int (total (threadVector (worker_step k s)))"
      if "length (threadVector (worker_step k s)) \<le> 1"
      using that d(3) [OF _ nq] d(4) [of k] k tr by (auto simp add: sc tot)
    show "w_loaded (threadVector (worker_step k s) ! j) = sharedCounter (worker_step k s)"
      if one: "length (threadVector (worker_step k s)) \<le> 1"
        and jl: "j < length (threadVector (worker_step k s))"
        and st: "w_pc (threadVector (worker_step k s) ! j) = W_store" for j
    proof -
      have "j = k" using one jl k by simp
      have "w_pc (threadVector s ! k) = W_load"
        and "w_loaded (threadVector (worker_step k s) ! k) = sharedCounter s"
        using store_worker [OF assms(1) k] st \<open>j = k\<close> tr by simp_all
      then show ?thesis
        using \<open>j = k\<close> by (simp add: sc)
    qed
  qed
qed

lemma race_main:
  assumes "ctl s" and "plain_ok s" and "race_ok s" shows "race_ok (main_step s)"
proof (cases "trial s = RaceCondition")
  case False
  then have "trial (main_step s) \<noteq> RaceCondition"
    by (cases "trial s") (simp_all add: main_step_trial)
  then show ?thesis
    by (simp add: race_ok_def)
next
  case tr: True
  note d = race_okD [OF assms(3) tr]
  note sc = main_step_sharedCounter [of s]
  note pc = main_step_mpc [of s]
  have zero: "quiet s \<Longrightarrow> sharedCounter s = 0"
    using plain_okD(1) [OF assms(2)] .
  have idle: "mpc s = M_open \<Longrightarrow> total (threadVector s) = 0"
    using total_idle [OF assms(1)] ctl_start [OF assms(1)] by simp
  have red: "mpc s \<noteq> M_reduce"
    using assms(1) tr by (auto simp add: ctl_def phase_ok_def)
  have old: "j < length (threadVector s) \<and> threadVector (main_step s) ! j = threadVector s ! j
             \<and> total (threadVector (main_step s)) = total (threadVector s)
             \<and> length (threadVector s) \<le> length (threadVector (main_step s))
             \<and> sharedCounter (main_step s) = sharedCounter s"
    if "j < length (threadVector (main_step s))"
      "w_pc (threadVector (main_step s) ! j) = W_store" for j
  proof -
    have a: "j < length (threadVector s)" "threadVector (main_step s) ! j = threadVector s ! j"
      "total (threadVector (main_step s)) = total (threadVector s)"
      "length (threadVector s) \<le> length (threadVector (main_step s))"
      using that
      by (auto simp: main_step_threads nth_append new_thread_def total_def split: if_splits)
    have "mpc s \<noteq> M_reset_counter"
      using ctl_returned [OF assms(1) _ a(1)] that(2) a(2) by auto
    then show ?thesis
      using a red by (simp add: sc)
  qed
  show ?thesis
  proof (rule race_okI)
    show "bounded (sharedCounter (main_step s)) (total (threadVector (main_step s)))"
      if "\<not> quiet (main_step s)"
      using that d(1) zero idle red
      by (cases "mpc s")
         (auto simp add: quiet_def sc pc main_step_threads split: if_splits)
    show "bounded (w_loaded (threadVector (main_step s) ! j)) (total (threadVector (main_step s)))"
      if "j < length (threadVector (main_step s))"
        "w_pc (threadVector (main_step s) ! j) = W_store" for j
      using old [OF that] d(2) [of j] that by simp
    show "sharedCounter (main_step s) = word_of_int (total (threadVector (main_step s)))"
      if "length (threadVector (main_step s)) \<le> 1" "\<not> quiet (main_step s)"
      using that d(3) zero idle red
      by (cases "mpc s")
         (auto simp add: quiet_def sc pc main_step_threads split: if_splits)
    show "w_loaded (threadVector (main_step s) ! j) = sharedCounter (main_step s)"
      if "length (threadVector (main_step s)) \<le> 1" "j < length (threadVector (main_step s))"
        "w_pc (threadVector (main_step s) ! j) = W_store" for j
      using old [OF that(2,3)] d(4) [of j] that by simp
  qed
qed

lemma slots_worker:
  assumes "ctl s" and "k < length (threadVector s)"
  shows "localCounterVector (worker_step k s) =
     (if trial s = LocalCounter \<and> w_pc (threadVector s ! k) = W_store
      then (localCounterVector s)[k := w_loaded (threadVector s ! k) + 1]
      else localCounterVector s)"
  using ctl_arg [OF assms]
  by (cases "trial s"; cases "w_pc (threadVector s ! k)")
     (simp_all add: worker_step_eq [OF assms] worker_defs)

lemma count_worker:
  assumes "ctl s" and "k < length (threadVector s)"
  shows "incrementCounter (threadVector (worker_step k s) ! k) =
     incrementCounter (threadVector s ! k)
     + (if w_pc (threadVector s ! k) = (if trial s = Atomic then W_fetch_add else W_store)
        then 1 else 0)"
proof -
  have z: "w_pc (threadVector s ! k) \<in> {W_spin, W_lock, W_guard} \<Longrightarrow>
            incrementCounter (threadVector s ! k) = 0"
    using ctl_thread_ok [OF assms] by (simp add: thread_ok_def)
  show ?thesis
    using assms(2) z
    by (cases "trial s"; cases "w_pc (threadVector s ! k)")
       (simp_all add: worker_step_eq [OF assms] worker_defs)
qed

lemma main_step_slots:
  "localCounterVector (main_step s) =
     (if mpc s = M_spawn \<and> int (iterator s) < arg_t s \<and> trial s = LocalCounter
      then localCounterVector s @ [0]
      else if mpc s = M_clear_slots then [] else localCounterVector s)"
  by (cases "mpc s"; simp add: main_step_def record_event_def split: option.splits)

lemma main_step_iterator:
  "iterator (main_step s) =
     (case mpc s of
        M_header \<Rightarrow> 0
      | M_spawn \<Rightarrow>
          if int (iterator s) < arg_t s \<and> trial s \<noteq> LocalCounter then iterator s + 1
          else iterator s
      | M_thread \<Rightarrow> iterator s + 1
      | M_open \<Rightarrow> 0
      | M_join \<Rightarrow>
          if iterator s < length (threadVector s) then
            (if w_pc (threadVector s ! iterator s) = W_return then iterator s + 1 else iterator s)
          else 0
      | M_reduce \<Rightarrow>
          if iterator s < length (localCounterVector s) then iterator s + 1 else iterator s
      | M_reset_start \<Rightarrow> if trial s = LocalCounter then iterator s else 0
      | _ \<Rightarrow> iterator s)"
  by (cases "mpc s"; cases "trial s"; simp add: main_step_def record_event_def)

lemma ctl_slots:
  "ctl s \<Longrightarrow> trial s = LocalCounter \<Longrightarrow>
     length (localCounterVector s) =
       (if mpc s = M_thread then length (threadVector s) + 1
        else if mpc s \<in> {M_header, M_reset_start, M_exit} then 0
        else if mpc s = M_clear_slots then workers s
        else length (threadVector s))"
  by (cases "mpc s") (simp_all add: ctl_def phase_ok_def slots_def)

lemma local_okI:
  assumes "\<And>j. trial s = LocalCounter \<Longrightarrow> j < length (threadVector s) \<Longrightarrow>
             localCounterVector s ! j = word_of_int (incrementCounter (threadVector s ! j))"
    and "\<And>j. trial s = LocalCounter \<Longrightarrow> j < length (threadVector s) \<Longrightarrow>
             w_pc (threadVector s ! j) = W_store \<Longrightarrow>
             w_loaded (threadVector s ! j) = localCounterVector s ! j"
    and "trial s = LocalCounter \<Longrightarrow> mpc s = M_thread \<Longrightarrow> localCounterVector s ! iterator s = 0"
    and "trial s = LocalCounter \<Longrightarrow> mpc s = M_join \<Longrightarrow> sharedCounter s = 0"
    and "trial s = LocalCounter \<Longrightarrow> mpc s = M_reduce \<Longrightarrow>
           sharedCounter s = sum_list (take (iterator s) (localCounterVector s))"
    and "trial s = LocalCounter \<Longrightarrow> mpc s \<in> {M_t2, M_print, M_reset_counter} \<Longrightarrow>
           sharedCounter s = word_of_int (total (threadVector s))"
  shows "local_ok s"
  using assms unfolding local_ok_def by blast

lemma local_okD:
  assumes "local_ok s" and "trial s = LocalCounter"
  shows "j < length (threadVector s) \<Longrightarrow>
             localCounterVector s ! j = word_of_int (incrementCounter (threadVector s ! j))"
    and "j < length (threadVector s) \<Longrightarrow> w_pc (threadVector s ! j) = W_store \<Longrightarrow>
             w_loaded (threadVector s ! j) = localCounterVector s ! j"
    and "mpc s = M_thread \<Longrightarrow> localCounterVector s ! iterator s = 0"
    and "mpc s = M_join \<Longrightarrow> sharedCounter s = 0"
    and "mpc s = M_reduce \<Longrightarrow>
           sharedCounter s = sum_list (take (iterator s) (localCounterVector s))"
    and "mpc s \<in> {M_t2, M_print, M_reset_counter} \<Longrightarrow>
           sharedCounter s = word_of_int (total (threadVector s))"
  using assms unfolding local_ok_def by blast+

lemma local_init: "local_ok (init t i)"
  by (simp add: local_ok_def init_def)

lemma slots_total:
  assumes "length xs = length ws"
    and "\<forall>j < length ws. xs ! j = (word_of_int (incrementCounter (ws ! j)) :: cint)"
  shows "sum_list xs = word_of_int (total ws)"
proof -
  have "xs = map (\<lambda>w. word_of_int (incrementCounter w)) ws"
    using assms by (intro nth_equalityI) simp_all
  moreover have "sum_list (map (\<lambda>w. word_of_int (incrementCounter w)) ws)
                 = (word_of_int (total ws) :: cint)"
    unfolding total_def by (induction ws) simp_all
  ultimately show ?thesis by simp
qed

lemma local_worker:
  assumes "ctl s" and "local_ok s" shows "local_ok (worker_step k s)"
proof (cases "k < length (threadVector s) \<and> mpc s = M_join \<and> trial s = LocalCounter")
  case False
  then show ?thesis
    using assms worker_waits [OF assms(1)] by (auto simp: worker_step_idle local_ok_def)
next
  case True
  then have k: "k < length (threadVector s)" and pc: "mpc s = M_join" and tr: "trial s = LocalCounter"
    by simp_all
  note d = local_okD [OF assms(2) tr]
  note sc = sharedCounter_worker [OF assms(1) k]
  note sl = slots_worker [OF assms(1) k]
  note ic = count_worker [OF assms(1) k]
  have len: "length (localCounterVector s) = length (threadVector s)"
    using ctl_slots [OF assms(1) tr] pc by simp
  show ?thesis
  proof (rule local_okI)
    show "localCounterVector (worker_step k s) ! j
          = word_of_int (incrementCounter (threadVector (worker_step k s) ! j))"
      if "j < length (threadVector (worker_step k s))" for j
    proof (cases "j = k")
      case True
      then show ?thesis
        using d(1) [OF k] d(2) [OF k] k len tr by (auto simp add: sl ic)
    next
      case False
      then show ?thesis
        using d(1) [of j] that by (simp add: sl worker_step_other)
    qed
    show "w_loaded (threadVector (worker_step k s) ! j) = localCounterVector (worker_step k s) ! j"
      if jl: "j < length (threadVector (worker_step k s))"
        and st: "w_pc (threadVector (worker_step k s) ! j) = W_store" for j
    proof (cases "j = k")
      case True
      have "w_pc (threadVector s ! k) = W_load"
        and "w_loaded (threadVector (worker_step k s) ! k) = localCounterVector s ! k"
        using store_worker [OF assms(1) k] st True tr by simp_all
      then show ?thesis
        using True by (simp add: sl)
    next
      case False
      then show ?thesis
        using d(2) [of j] jl st by (simp add: sl worker_step_other)
    qed
    show "sharedCounter (worker_step k s) = 0"
      using d(4) [OF pc] tr by (simp add: sc)
  qed (simp_all add: pc)
qed

lemma local_main:
  assumes "ctl s" and "plain_ok s" and "local_ok s" shows "local_ok (main_step s)"
proof (cases "trial s = LocalCounter")
  case False
  have "threadVector (main_step s) = [] \<and> mpc (main_step s) = M_spawn"
    if "trial (main_step s) = LocalCounter"
    using that False ctl_no_threads [OF assms(1)]
    by (cases "mpc s") (auto simp: main_step_trial main_step_threads main_step_mpc split: if_splits)
  then show ?thesis
    by (auto simp add: local_ok_def)
next
  case tr: True
  note d = local_okD [OF assms(3) tr]
  note sc = main_step_sharedCounter [of s]
  note pc = main_step_mpc [of s]
  note sl = main_step_slots [of s]
  note it = main_step_iterator [of s]
  note th = main_step_threads [of s]
  note len = ctl_slots [OF assms(1) tr]
  have zero: "quiet s \<Longrightarrow> sharedCounter s = 0"
    using plain_okD(1) [OF assms(2)] .
  have spawning: "mpc s = M_thread \<or> mpc s = M_spawn \<Longrightarrow> length (threadVector s) = iterator s"
    using ctl_spawning [OF assms(1)] by auto
  have nt: "mpc s = M_clear_slots \<Longrightarrow> threadVector s = []"
    using ctl_no_threads [OF assms(1)] by simp
  show ?thesis
  proof (rule local_okI)
    show "localCounterVector (main_step s) ! j
          = word_of_int (incrementCounter (threadVector (main_step s) ! j))"
      if "j < length (threadVector (main_step s))" for j
      using that d(1) [of j] d(3) len spawning tr nt
      by (cases "mpc s")
         (auto simp add: sl th nth_append new_thread_def less_Suc_eq split: if_splits)
    show "w_loaded (threadVector (main_step s) ! j) = localCounterVector (main_step s) ! j"
      if "j < length (threadVector (main_step s))"
        "w_pc (threadVector (main_step s) ! j) = W_store" for j
      using that d(2) [of j] len tr nt
      by (cases "mpc s")
         (auto simp add: sl th nth_append new_thread_def less_Suc_eq split: if_splits)
    show "localCounterVector (main_step s) ! iterator (main_step s) = 0"
      if "mpc (main_step s) = M_thread"
      using that len tr spawning
      by (cases "mpc s") (auto simp add: sl it pc nth_append split: if_splits)
    show "sharedCounter (main_step s) = 0" if "mpc (main_step s) = M_join"
      using that d(4) zero tr
      by (cases "mpc s") (auto simp add: sc pc quiet_def split: if_splits)
    show "sharedCounter (main_step s)
          = sum_list (take (iterator (main_step s)) (localCounterVector (main_step s)))"
      if "mpc (main_step s) = M_reduce"
      using that d(4,5) tr
      by (cases "mpc s")
         (auto simp add: sc pc sl it take_Suc_conv_app_nth split: if_splits)
    show "sharedCounter (main_step s) = word_of_int (total (threadVector (main_step s)))"
      if m: "mpc (main_step s) \<in> {M_t2, M_print, M_reset_counter}"
    proof (cases "mpc s = M_reduce")
      case True
      then have full: "\<not> iterator s < length (localCounterVector s)"
        using m by (auto simp add: pc split: if_splits)
      have l: "length (localCounterVector s) = length (threadVector s)"
        using len True by simp
      have "sum_list (localCounterVector s) = word_of_int (total (threadVector s))"
        using d(1) by (intro slots_total [OF l]) simp
      then show ?thesis
        using d(5) [OF True] full True by (simp add: sc th)
    next
      case False
      then show ?thesis
        using m d(6) tr
        by (cases "mpc s") (auto simp add: sc pc th split: if_splits)
    qed
  qed
qed

lemma out_init: "out_ok (init t i)"
  by (simp add: out_ok_def init_def)

lemma out_worker: "out_ok s \<Longrightarrow> out_ok (worker_step k s)"
  by (simp add: out_ok_def reported_def)

lemma earlier_next: "next_trial f = Some g \<Longrightarrow> earlier g = earlier f @ [f]"
  by (cases f) auto

lemma final_value:
  assumes "ctl s" and "atomic_ok s" and "plain_ok s" and "race_ok s" and "local_ok s"
    and "mpc s = M_print"
  shows "final_ok (arg_t s) (arg_i s) (trial s)
           (sint (if trial s = Atomic then sharedCounterAtomic s else sharedCounter s))"
proof -
  have ret: "\<forall>j < length (threadVector s). w_pc (threadVector s ! j) = W_return"
    using ctl_returned [OF assms(1)] assms(6) by simp
  have len: "length (threadVector s) = workers s"
    using ctl_spawned [OF assms(1)] assms(6) by simp
  have tot: "total (threadVector s) = product (arg_t s) (arg_i s)"
    using total_returned [OF assms(1) ret] len by (simp add: product_def workers_def rounds_def)
  have nq: "\<not> quiet s"
    using assms(6) by (simp add: quiet_def)
  show ?thesis
  proof (cases "trial s")
    case RaceCondition
    obtain m where m: "0 \<le> m" "m \<le> total (threadVector s)" "sharedCounter s = word_of_int m"
      using race_okD(1) [OF assms(4) RaceCondition nq] unfolding bounded_def by blast
    show ?thesis
    proof (cases "nat (arg_t s) \<le> 1")
      case True
      then have "sharedCounter s = word_of_int (total (threadVector s))"
        using race_okD(3) [OF assms(4) RaceCondition _ nq] len by (simp add: workers_def)
      moreover have "0 \<le> product (arg_t s) (arg_i s)"
        by (simp add: product_def)
      ultimately show ?thesis
        using RaceCondition tot unfolding final_ok_def by auto
    next
      case False
      then show ?thesis
        using RaceCondition m tot unfolding final_ok_def by auto
    qed
  next
    case MutexLock
    then show ?thesis
      using plain_okD(3) [OF assms(3) _ nq] tot by (simp add: final_ok_def)
  next
    case LockGuard
    then show ?thesis
      using plain_okD(3) [OF assms(3) _ nq] tot by (simp add: final_ok_def)
  next
    case Atomic
    then show ?thesis
      using assms(2,6) tot by (simp add: final_ok_def atomic_ok_def)
  next
    case LocalCounter
    then show ?thesis
      using local_okD(6) [OF assms(5) LocalCounter] assms(6) tot by (simp add: final_ok_def)
  qed
qed

lemma out_main:
  assumes "ctl s" and "atomic_ok s" and "plain_ok s" and "race_ok s" and "local_ok s"
    and "out_ok s"
  shows "out_ok (main_step s)"
proof (cases "mpc s = M_print")
  case True
  then show ?thesis
    using assms(6) final_value [OF assms(1-5) True]
    by (simp add: out_ok_def main_step_def record_event_def reported_def)
next
  case False
  have "mpc s = M_header \<Longrightarrow> trial s = RaceCondition"
    using assms(1) by (simp add: ctl_def phase_ok_def)
  with False show ?thesis
    using assms(6)
    by (cases "mpc s")
       (auto simp add: out_ok_def main_step_def record_event_def reported_def earlier_next
          split: option.splits)
qed

lemma log_init: "log_ok (init t i)"
  by (simp add: log_ok_def future_def init_def program_events_def trial_events_def
      tail_events_def workers_def)

lemma log_worker: "log_ok s \<Longrightarrow> log_ok (worker_step k s)"
  by (simp add: log_ok_def future_def workers_def)

lemma later_next: "next_trial f = Some g \<Longrightarrow> later f = g # later g"
  by (cases f) auto

lemma later_last [simp]: "later LocalCounter = []"
  by simp

lemma future_main:
  assumes "ctl s"
  shows "mlog (main_step s) @ future (main_step s) = mlog s @ future s"
proof -
  have lt: "(int (iterator s) < arg_t s) = (iterator s < workers s)"
    by (auto simp: workers_def)
  have sp: "mpc s = M_thread \<Longrightarrow> trial s = LocalCounter \<and> iterator s < workers s"
    using assms by (simp add: ctl_def phase_ok_def)
  have sp2: "mpc s = M_spawn \<Longrightarrow> iterator s \<le> workers s"
    using assms by (simp add: ctl_def phase_ok_def)
  have jn: "mpc s = M_join \<Longrightarrow> length (threadVector s) = workers s \<and> iterator s \<le> workers s"
    using assms by (simp add: ctl_def phase_ok_def)
  have rd: "mpc s = M_reduce \<Longrightarrow>
     length (localCounterVector s) = workers s \<and> iterator s \<le> workers s \<and> trial s = LocalCounter"
    using assms by (simp add: ctl_def phase_ok_def slots_def)
  have cs: "mpc s = M_clear_slots \<Longrightarrow> trial s = LocalCounter"
    using assms by (simp add: ctl_def phase_ok_def)
  have ex: "mpc s = M_header \<Longrightarrow> trial s = RaceCondition"
    using assms by (simp add: ctl_def phase_ok_def)
  show ?thesis
  proof (cases "mpc s")
    case M_spawn
    then show ?thesis
      using sp2 lt
      by (auto simp add: main_step_def record_event_def future_def tail_events_def workers_def
          spawn_events_def upt_conv_Cons)
  next
    case M_thread
    then show ?thesis
      using sp
      by (auto simp add: main_step_def record_event_def future_def tail_events_def workers_def)
  next
    case M_join
    then show ?thesis
      using jn
      by (auto simp add: main_step_def record_event_def future_def tail_events_def workers_def
          reduce_events_def upt_conv_Cons)
  next
    case M_reduce
    then show ?thesis
      using rd
      by (auto simp add: main_step_def record_event_def future_def tail_events_def workers_def
          reduce_events_def upt_conv_Cons)
  next
    case M_reset_start
    then show ?thesis
      by (auto simp add: main_step_def record_event_def future_def tail_events_def workers_def
          trial_events_def later_next split: option.splits)
  next
    case M_clear_threads
    then show ?thesis
      by (auto simp add: main_step_def record_event_def future_def tail_events_def workers_def
          end_events_def)
  next
    case M_clear_slots
    then show ?thesis
      using cs
      by (auto simp add: main_step_def record_event_def future_def tail_events_def workers_def
          end_events_def)
  qed (simp_all add: main_step_def record_event_def future_def tail_events_def workers_def
          end_events_def)
qed

lemma log_main: "ctl s \<Longrightarrow> log_ok s \<Longrightarrow> log_ok (main_step s)"
  using future_main [of s] by (simp add: log_ok_def workers_def)

lemma inv_init: "inv (init t i)"
  by (simp add: inv_def ctl_init mtx_init atomic_init plain_init race_init local_init out_init
      log_init)

lemma inv_step: "inv s \<Longrightarrow> inv (step tid s)"
proof (cases tid)
  case Main
  assume "inv s"
  then show ?thesis
    unfolding inv_def using Main
    by (simp add: ctl_main mtx_main atomic_main plain_main race_main local_main out_main log_main)
next
  case (Worker k)
  assume "inv s"
  then show ?thesis
    unfolding inv_def using Worker
    by (simp add: ctl_worker mtx_worker atomic_worker plain_worker race_worker local_worker
        out_worker log_worker)
qed

lemma exec_Nil [simp]: "exec [] s = s"
  by (simp add: exec_def)

lemma exec_Cons [simp]: "exec (x # xs) s = exec xs (step x s)"
  by (simp add: exec_def)

lemma exec_append: "exec (xs @ ys) s = exec ys (exec xs s)"
  by (simp add: exec_def)

lemma inv_exec: "inv s \<Longrightarrow> inv (exec sched s)"
  by (induction sched arbitrary: s) (simp_all add: inv_step)

lemma inv_reach: "inv (exec sched (init t i))"
  by (rule inv_exec [OF inv_init])

lemma exec_args [simp]:
  "arg_t (exec sched s) = arg_t s" "arg_i (exec sched s) = arg_i s"
proof -
  have "arg_t (step x s') = arg_t s' \<and> arg_i (step x s') = arg_i s'" for x s'
    by (cases x) simp_all
  then have "arg_t (exec sched s) = arg_t s \<and> arg_i (exec sched s) = arg_i s"
    by (induction sched arbitrary: s) simp_all
  then show "arg_t (exec sched s) = arg_t s" "arg_i (exec sched s) = arg_i s"
    by simp_all
qed

lemma sint_nonneg_le: "0 \<le> m \<Longrightarrow> sint (word_of_int m :: cint) \<le> m"
  by (simp add: sint_sbintrunc' signed_take_bit_int_less_eq_self_iff)

lemma sint_in_range: "0 \<le> m \<Longrightarrow> m < 2 ^ 31 \<Longrightarrow> sint (word_of_int m :: cint) = m"
  by (simp add: sint_sbintrunc' signed_take_bit_int_eq_self)

lemma reach_ctl: "ctl (exec sched (init t i))"
  using inv_reach [of sched t i] by (simp add: inv_def)

lemma printed_line:
  assumes "Data f v n \<in> set (printed (exec sched (init t i)))"
  shows "n = t \<and> final_ok t i f v"
proof -
  have "list_all (line_ok t i) (printed (exec sched (init t i)))"
    using inv_reach [of sched t i] by (simp add: inv_def out_ok_def init_def)
  then have "line_ok t i (Data f v n)"
    using assms unfolding list_all_iff by blast
  then show ?thesis by simp
qed

text \<open>
  C2. In every interleaving of the loads and stores, the value the RaceCondition trial
  prints is at most \<open>t * i\<close>, and with one thread it is \<open>i\<close>. (\<open>i\<close> is an \<open>int\<close> of the
  program, hence below \<open>2 ^ 31\<close>.)
\<close>

theorem race_final_bounded:
  assumes "1 \<le> t" and "0 \<le> i" and "i < 2 ^ 31"
    and "Data RaceCondition v n \<in> set (printed (exec sched (init t i)))"
  shows "v \<le> t * i \<and> (t = 1 \<longrightarrow> v = i)"
proof -
  obtain m where m: "0 \<le> m" "m \<le> product t i" "v = sint (word_of_int m :: cint)"
    "nat t \<le> 1 \<longrightarrow> m = product t i"
    using printed_line [OF assms(4)] unfolding final_ok_def by auto
  have p: "product t i = t * i"
    using assms(1,2) by (simp add: product_def)
  have "v \<le> t * i"
    using sint_nonneg_le [OF m(1)] m(2,3) p by simp
  moreover have "v = i" if "t = 1"
    using that m p sint_in_range [of i] assms(2,3) by simp
  ultimately show ?thesis by simp
qed

theorem race_final_bounded_witness:
  "printed (exec racy_schedule (init 2 1)) = [Header, Data RaceCondition 1 2]
   \<and> (1 :: int) \<le> 2 * 1
   \<and> take 2 (printed (exec (sequential_schedule 1 3) (init 1 3))) = [Header, Data RaceCondition 3 1]"
proof -
  have a: "printed (exec racy_schedule (init 2 1)) = [Header, Data RaceCondition 1 2]"
    by code_simp
  have b: "take 2 (printed (exec (sequential_schedule 1 3) (init 1 3)))
           = [Header, Data RaceCondition 3 1]"
    by code_simp
  have "Data RaceCondition 1 2 \<in> set (printed (exec racy_schedule (init 2 1)))"
    by (simp add: a)
  then have "(1 :: int) \<le> 2 * 1"
    using race_final_bounded [of 2 1 1 2 racy_schedule] by simp
  with a b show ?thesis by simp
qed

text \<open>
  C7. While \<open>start\<close> is false every thread is in its busy wait, a step of a thread changes
  nothing, and the counters and all slots are zero. \<open>main\<close> sets \<open>start\<close> when all
  \<open>t\<close> threads of the trial are in \<open>threadVector\<close>, and while \<open>start\<close> is true either these
  \<open>t\<close> threads are there or, at the end of the trial, \<open>threadVector\<close> has been cleared.
\<close>

theorem gate_closed_no_increment:
  "(\<not> start (exec sched (init t i)) \<longrightarrow>
      (\<forall>k < length (threadVector (exec sched (init t i))).
          w_pc (threadVector (exec sched (init t i)) ! k) = W_spin
          \<and> incrementCounter (threadVector (exec sched (init t i)) ! k) = 0)
      \<and> (\<forall>k. step (Worker k) (exec sched (init t i)) = exec sched (init t i))
      \<and> sharedCounter (exec sched (init t i)) = 0
      \<and> sharedCounterAtomic (exec sched (init t i)) = 0
      \<and> (\<forall>x \<in> set (localCounterVector (exec sched (init t i))). x = 0))
   \<and> (mpc (exec sched (init t i)) = M_open \<longrightarrow>
        length (threadVector (exec sched (init t i))) = nat t)
   \<and> (start (exec sched (init t i)) \<longrightarrow>
        threadVector (exec sched (init t i)) = []
        \<or> length (threadVector (exec sched (init t i))) = nat t)"
proof -
  define s where "s = exec sched (init t i)"
  have i: "inv s" unfolding s_def by (rule inv_reach)
  then have c: "ctl s" and a: "atomic_ok s" and p: "plain_ok s" and l: "local_ok s"
    by (simp_all add: inv_def)
  have w: "workers s = nat t"
    by (simp add: workers_def s_def init_def)
  have closed: "(\<forall>k < length (threadVector s).
            w_pc (threadVector s ! k) = W_spin \<and> incrementCounter (threadVector s ! k) = 0)
        \<and> (\<forall>k. step (Worker k) s = s) \<and> sharedCounter s = 0 \<and> sharedCounterAtomic s = 0
        \<and> (\<forall>x \<in> set (localCounterVector s). x = 0)" if ns: "\<not> start s"
  proof -
    have q: "quiet s"
      using ctl_start [OF c] ns by (auto simp: quiet_def)
    have th: "w_pc (threadVector s ! k) = W_spin \<and> incrementCounter (threadVector s ! k) = 0"
      if "k < length (threadVector s)" for k
      using ctl_thread_ok [OF c that] ns by (simp add: thread_ok_def)
    have "total (threadVector s) = 0"
      by (rule total_idle [OF c ns])
    moreover have "mpc s \<noteq> M_clear_threads"
      using ctl_start [OF c] ns by auto
    ultimately have at: "sharedCounterAtomic s = 0"
      using a by (simp add: atomic_ok_def)
    have sl: "x = 0" if x: "x \<in> set (localCounterVector s)" for x
    proof (cases "trial s = LocalCounter")
      case False
      have "slots s (length (localCounterVector s))"
        using c by (cases "mpc s") (auto simp: ctl_def phase_ok_def slots_def)
      then show ?thesis
        using False x by (simp add: slots_def)
    next
      case True
      obtain j where j: "j < length (localCounterVector s)" "x = localCounterVector s ! j"
        using x by (auto simp: in_set_conv_nth)
      show ?thesis
      proof (cases "j < length (threadVector s)")
        case jt: True
        then show ?thesis
          using local_okD(1) [OF l True jt] th [OF jt] j by simp
      next
        case False
        then have "mpc s = M_thread \<and> j = length (threadVector s)"
          using ctl_slots [OF c True] j(1) ctl_start [OF c] ns
          by (cases "mpc s") (auto split: if_splits)
        then show ?thesis
          using local_okD(3) [OF l True] ctl_spawning [OF c] j by simp
      qed
    qed
    show ?thesis
      using th quiet_idle [OF c q] plain_okD(1) [OF p q] at sl by simp
  qed
  have opened: "length (threadVector s) = nat t" if "mpc s = M_open"
    using ctl_spawned [OF c] that w by simp
  have "threadVector s = [] \<or> length (threadVector s) = nat t" if "start s"
    using that ctl_start [OF c] ctl_spawned [OF c] ctl_no_threads [OF c] w
    by (cases "mpc s") simp_all
  then show ?thesis
    using closed opened unfolding s_def by blast
qed

theorem gate_closed_no_increment_witness:
  "\<not> start (exec (replicate 3 Main @ [Worker 0, Worker 1]) (init 2 5))
   \<and> map w_pc (threadVector (exec (replicate 3 Main @ [Worker 0, Worker 1]) (init 2 5)))
       = [W_spin, W_spin]
   \<and> sharedCounter (exec (replicate 3 Main @ [Worker 0, Worker 1]) (init 2 5)) = 0
   \<and> start (exec (replicate 6 Main @ [Worker 0, Worker 1]) (init 2 5))
   \<and> length (threadVector (exec (replicate 6 Main @ [Worker 0, Worker 1]) (init 2 5))) = nat 2"
proof -
  have a: "\<not> start (exec (replicate 3 Main @ [Worker 0, Worker 1]) (init 2 5))"
    "map w_pc (threadVector (exec (replicate 3 Main @ [Worker 0, Worker 1]) (init 2 5)))
       = [W_spin, W_spin]"
    "start (exec (replicate 6 Main @ [Worker 0, Worker 1]) (init 2 5))"
    "threadVector (exec (replicate 6 Main @ [Worker 0, Worker 1]) (init 2 5)) \<noteq> []"
    by code_simp+
  show ?thesis
    using a gate_closed_no_increment [of "replicate 3 Main @ [Worker 0, Worker 1]" 2 5]
      gate_closed_no_increment [of "replicate 6 Main @ [Worker 0, Worker 1]" 2 5]
    by blast
qed

lemma reach_inv_parts:
  "ctl (exec sched (init t i))" "mtx_ok (exec sched (init t i))"
  "atomic_ok (exec sched (init t i))" "plain_ok (exec sched (init t i))"
  "local_ok (exec sched (init t i))" "out_ok (exec sched (init t i))"
  "log_ok (exec sched (init t i))"
  using inv_reach [of sched t i] by (simp_all add: inv_def)

lemma reach_workers: "workers (exec sched (init t i)) = nat t"
  by (simp add: workers_def init_def)

text \<open>
  C8. Whenever \<open>main\<close> stands at the head of a trial (the first one too) or at the end of
  the program, both counters are zero, \<open>start\<close> is false, \<open>threadVector\<close> and
  \<open>localCounterVector\<close> are empty and the mutex is free; the lines printed so far are the
  header and one line for each trial before.
\<close>

theorem state_reset_between_trials:
  "(mpc (exec sched (init t i)) = M_spawn \<and> iterator (exec sched (init t i)) = 0
    \<or> mpc (exec sched (init t i)) = M_exit) \<longrightarrow>
     sharedCounter (exec sched (init t i)) = 0
     \<and> sharedCounterAtomic (exec sched (init t i)) = 0
     \<and> \<not> start (exec sched (init t i))
     \<and> threadVector (exec sched (init t i)) = []
     \<and> localCounterVector (exec sched (init t i)) = []
     \<and> sharedCounter_mtx (exec sched (init t i)) = None
     \<and> map line_name (printed (exec sched (init t i)))
         = None # map Some (if mpc (exec sched (init t i)) = M_exit
                            then [RaceCondition, MutexLock, LockGuard, Atomic, LocalCounter]
                            else earlier (trial (exec sched (init t i))))"
proof
  define s where "s = exec sched (init t i)"
  assume "mpc (exec sched (init t i)) = M_spawn \<and> iterator (exec sched (init t i)) = 0
    \<or> mpc (exec sched (init t i)) = M_exit"
  then have at: "mpc s = M_spawn \<and> iterator s = 0 \<or> mpc s = M_exit"
    by (simp add: s_def)
  note p = reach_inv_parts [of sched t i, folded s_def]
  have tv: "threadVector s = []"
    using at ctl_spawning [OF p(1)] ctl_no_threads [OF p(1)] by auto
  have ns: "\<not> start s"
    using at ctl_start [OF p(1)] by auto
  have q: "quiet s"
    using at by (auto simp: quiet_def)
  have lc: "localCounterVector s = []"
    using at p(1) by (auto simp: ctl_def phase_ok_def slots_def)
  have mt: "sharedCounter_mtx s = None"
  proof (cases "sharedCounter_mtx s")
    case (Some k)
    then show ?thesis
      using mtx_ok_owner [OF p(2) Some] tv by simp
  qed simp
  have ac: "sharedCounterAtomic s = 0"
    using p(3) tv by (auto simp add: atomic_ok_def)
  have ex: "mpc s = M_exit \<Longrightarrow> trial s = LocalCounter"
    using p(1) by (simp add: ctl_def phase_ok_def)
  have out: "map line_name (printed s)
         = None # map Some (if mpc s = M_exit
                            then [RaceCondition, MutexLock, LockGuard, Atomic, LocalCounter]
                            else earlier (trial s))"
    using at p(6) ex by (auto simp: out_ok_def reported_def)
  show "sharedCounter (exec sched (init t i)) = 0
     \<and> sharedCounterAtomic (exec sched (init t i)) = 0
     \<and> \<not> start (exec sched (init t i))
     \<and> threadVector (exec sched (init t i)) = []
     \<and> localCounterVector (exec sched (init t i)) = []
     \<and> sharedCounter_mtx (exec sched (init t i)) = None
     \<and> map line_name (printed (exec sched (init t i)))
         = None # map Some (if mpc (exec sched (init t i)) = M_exit
                            then [RaceCondition, MutexLock, LockGuard, Atomic, LocalCounter]
                            else earlier (trial (exec sched (init t i))))"
    using plain_okD(1) [OF p(4) q] ac ns tv lc mt out unfolding s_def by simp
qed

theorem state_reset_between_trials_witness:
  "mpc (exec (Main # trial_schedule RaceCondition 2 1) (init 2 1)) = M_spawn
   \<and> iterator (exec (Main # trial_schedule RaceCondition 2 1) (init 2 1)) = 0
   \<and> trial (exec (Main # trial_schedule RaceCondition 2 1) (init 2 1)) = MutexLock
   \<and> printed (exec (Main # trial_schedule RaceCondition 2 1) (init 2 1))
       = [Header, Data RaceCondition 2 2]
   \<and> sharedCounter (exec (Main # trial_schedule RaceCondition 2 1) (init 2 1)) = 0
   \<and> \<not> start (exec (Main # trial_schedule RaceCondition 2 1) (init 2 1))
   \<and> threadVector (exec (Main # trial_schedule RaceCondition 2 1) (init 2 1)) = []"
proof -
  have a: "mpc (exec (Main # trial_schedule RaceCondition 2 1) (init 2 1)) = M_spawn"
    "iterator (exec (Main # trial_schedule RaceCondition 2 1) (init 2 1)) = 0"
    "trial (exec (Main # trial_schedule RaceCondition 2 1) (init 2 1)) = MutexLock"
    "printed (exec (Main # trial_schedule RaceCondition 2 1) (init 2 1))
       = [Header, Data RaceCondition 2 2]"
    by code_simp+
  show ?thesis
    using a state_reset_between_trials [of "Main # trial_schedule RaceCondition 2 1" 2 1]
    by simp
qed

text \<open>
  C10. With \<open>t \<le> 0\<close> no thread is ever created and \<open>main\<close> logs no spawn; a run that
  reaches the end of \<open>main\<close> has printed the header and the five lines, in the order of the
  trials, each with final value 0; and 48 steps of \<open>main\<close> reach the end.
\<close>

theorem no_workers_when_t_nonpositive:
  assumes "t \<le> 0"
  shows "threadVector (exec sched (init t i)) = []
    \<and> (\<forall>f k. E_spawn f k \<notin> set (mlog (exec sched (init t i))))
    \<and> (mpc (exec sched (init t i)) = M_exit \<longrightarrow>
          printed (exec sched (init t i))
          = [Header, Data RaceCondition 0 t, Data MutexLock 0 t, Data LockGuard 0 t,
             Data Atomic 0 t, Data LocalCounter 0 t])
    \<and> mpc (exec (replicate 48 Main) (init t i)) = M_exit"
proof -
  define s where "s = exec sched (init t i)"
  note p = reach_inv_parts [of sched t i, folded s_def]
  have w: "workers s = 0"
    using assms by (simp add: workers_def s_def init_def)
  have tv: "threadVector s = []"
  proof -
    have "length (threadVector s) \<le> workers s"
      using p(1) by (cases "mpc s") (auto simp: ctl_def phase_ok_def)
    then show ?thesis using w by simp
  qed
  have "set (mlog s) \<subseteq> set (program_events 0)"
  proof -
    have "mlog s @ future s = program_events 0"
      using p(7) w by (simp add: log_ok_def)
    then show ?thesis
      by (metis set_append Un_upper1)
  qed
  then have sp: "E_spawn f k \<notin> set (mlog s)" for f k
    by (auto simp: program_events_def trial_events_def tail_events_def spawn_events_def
        reduce_events_def end_events_def)
  have lines: "printed s = [Header, Data RaceCondition 0 t, Data MutexLock 0 t,
      Data LockGuard 0 t, Data Atomic 0 t, Data LocalCounter 0 t]" if ex: "mpc s = M_exit"
  proof -
    have tr: "trial s = LocalCounter"
      using p(1) ex by (simp add: ctl_def phase_ok_def)
    have names: "map line_name (printed s)
        = [None, Some RaceCondition, Some MutexLock, Some LockGuard, Some Atomic, Some LocalCounter]"
      using p(6) ex tr by (simp add: out_ok_def reported_def)
    have ok: "list_all (line_ok t i) (printed s)"
      using p(6) by (simp add: out_ok_def s_def init_def)
    have z: "product t i = 0"
      using assms by (simp add: product_def)
    have fz: "v = 0" if f: "final_ok t i g v" for g v
    proof (cases "g = RaceCondition")
      case True
      then obtain m where "0 \<le> m" "m \<le> 0" "v = sint (word_of_int m :: cint)"
        using f z unfolding final_ok_def by auto
      then have "m = 0" by simp
      then show ?thesis
        using \<open>v = sint (word_of_int m :: cint)\<close> by simp
    next
      case False
      then show ?thesis
        using f z by (simp add: final_ok_def)
    qed
    have one: "l = (case f of None \<Rightarrow> Header | Some g \<Rightarrow> Data g 0 t)"
      if "line_ok t i l" "line_name l = f" for l f
      using that fz by (cases l) auto
    obtain l0 l1 l2 l3 l4 l5 where ls: "printed s = [l0, l1, l2, l3, l4, l5]"
      and nm: "line_name l0 = None" "line_name l1 = Some RaceCondition"
        "line_name l2 = Some MutexLock" "line_name l3 = Some LockGuard"
        "line_name l4 = Some Atomic" "line_name l5 = Some LocalCounter"
      using names by (auto simp: map_eq_Cons_conv)
    have "line_ok t i l0" "line_ok t i l1" "line_ok t i l2" "line_ok t i l3" "line_ok t i l4"
      "line_ok t i l5"
      using ok ls by simp_all
    then show ?thesis
      using one nm ls by fastforce
  qed
  have nt: "\<not> 0 < t"
    using assms by simp
  have run: "mpc (exec (replicate 48 Main) (init t i)) = M_exit"
    using nt by (simp add: numeral_eq_Suc init_def main_step_def record_event_def)
  show ?thesis
    using tv sp lines run unfolding s_def by blast
qed

theorem no_workers_when_t_nonpositive_witness:
  "parse_args [''parcount'', ''-t'', ''none''] = (0, 10000)
   \<and> parse_args [''parcount'', ''-t'', ''-3'', ''-i'', ''7''] = (-3, 7)
   \<and> printed (program [''parcount'', ''-t'', ''-3'', ''-i'', ''7''] (replicate 48 Main))
       = [Header, Data RaceCondition 0 (-3), Data MutexLock 0 (-3), Data LockGuard 0 (-3),
          Data Atomic 0 (-3), Data LocalCounter 0 (-3)]"
proof -
  have a: "parse_args [''parcount'', ''-t'', ''none''] = (0, 10000)"
    "parse_args [''parcount'', ''-t'', ''-3'', ''-i'', ''7''] = (-3, 7)"
    using parse_loop_groups [of "[Flag_t ''none'']" "[]" "[''parcount'']" 4 10000]
      parse_loop_groups [of "[Flag_t ''-3'', Flag_i ''7'']" "[]" "[''parcount'']" 4 10000]
    by (simp_all add: parse_args_def last_or_def atoi_def isspace_def isdigit_def)
  have "(-3 :: int) \<le> 0" by simp
  from no_workers_when_t_nonpositive [OF this, of "replicate 48 Main" 7]
  show ?thesis
    using a by (simp add: program_def)
qed

lemma program_events_split:
  "program_events n =
     (before_t2 f n @ E_open f # map (E_join f) [0..<n] @ reduce_events f 0 n)
     @ E_t2 f # after_t2 f n"
  by (cases f)
     (simp_all add: program_events_def trial_events_def tail_events_def end_events_def
        before_t2_def after_t2_def)

lemma t2_in_trial: "E_t2 f \<in> set (trial_events g n) \<longleftrightarrow> f = g"
  by (auto simp: trial_events_def tail_events_def spawn_events_def reduce_events_def
      end_events_def)

lemma t2_not_before:
  "E_t2 f \<notin> set (before_t2 f n @ E_open f # map (E_join f) [0..<n] @ reduce_events f 0 n)"
  by (cases f) (auto simp: before_t2_def t2_in_trial spawn_events_def reduce_events_def)

lemma t2_not_after: "E_t2 f \<notin> set (after_t2 f n)"
  by (cases f) (auto simp: after_t2_def t2_in_trial end_events_def)

text \<open>
  C3, as the code has it. Whenever \<open>main\<close> has recorded the end timestamp of a trial, what
  it did just before is, in this order: set \<open>start\<close>, join the \<open>t\<close> threads and, in the
  LocalCounter trial only, add the \<open>t\<close> slots to \<open>sharedCounter\<close>. The sum is inside the
  timed interval.
\<close>

theorem end_timestamp_after_joins_and_sum:
  assumes "mlog (exec sched (init t i)) = xs @ E_t2 f # ys"
  shows "\<exists>zs. xs = zs @ E_open f # map (E_join f) [0..<nat t]
                 @ (if f = LocalCounter then map (E_reduce f) [0..<nat t] else [])"
proof -
  define s where "s = exec sched (init t i)"
  have "mlog s @ future s = program_events (nat t)"
    using reach_inv_parts(7) [of sched t i] reach_workers [of sched t i]
    by (simp add: log_ok_def s_def)
  then have "xs @ E_t2 f # (ys @ future s)
      = (before_t2 f (nat t) @ E_open f # map (E_join f) [0..<nat t] @ reduce_events f 0 (nat t))
        @ E_t2 f # after_t2 f (nat t)"
    using assms program_events_split [of "nat t" f] by (simp add: s_def)
  then have "xs = before_t2 f (nat t) @ E_open f # map (E_join f) [0..<nat t]
                  @ reduce_events f 0 (nat t)"
    using t2_not_before [of f "nat t"] t2_not_after [of f "nat t"]
    by (metis append_Cons_eq_iff)
  then show ?thesis
    by (auto simp: reduce_events_def)
qed

theorem end_timestamp_after_joins_and_sum_witness:
  "mlog (exec (sequential_schedule 1 0) (init 1 0))
     = take 42 (mlog (exec (sequential_schedule 1 0) (init 1 0)))
       @ E_t2 LocalCounter # drop 43 (mlog (exec (sequential_schedule 1 0) (init 1 0)))
   \<and> (\<exists>zs. take 42 (mlog (exec (sequential_schedule 1 0) (init 1 0)))
            = zs @ E_open LocalCounter # map (E_join LocalCounter) [0..<nat 1]
                 @ (if LocalCounter = LocalCounter
                    then map (E_reduce LocalCounter) [0..<nat 1] else []))"
proof -
  have a: "mlog (exec (sequential_schedule 1 0) (init 1 0))
     = take 42 (mlog (exec (sequential_schedule 1 0) (init 1 0)))
       @ E_t2 LocalCounter # drop 43 (mlog (exec (sequential_schedule 1 0) (init 1 0)))"
    by code_simp
  show ?thesis
    using a end_timestamp_after_joins_and_sum [OF a] by blast
qed

text \<open>
  The claim as stated fails in the run of one thread and no increments: in the
  LocalCounter trial \<open>main\<close> joins the thread, adds its slot to \<open>sharedCounter\<close>, and
  only then records the end timestamp.
\<close>

theorem sum_before_end_timestamp:
  "mlog (exec (sequential_schedule 1 0) (init 1 0)) ! 40 = E_join LocalCounter 0
   \<and> mlog (exec (sequential_schedule 1 0) (init 1 0)) ! 41 = E_reduce LocalCounter 0
   \<and> mlog (exec (sequential_schedule 1 0) (init 1 0)) ! 42 = E_t2 LocalCounter"
  by code_simp

text \<open>
  C4, as the code has it. In the LocalCounter trial every thread in \<open>threadVector\<close> has
  its slot; when \<open>main\<close> is about to create a thread, the slot for it has just been
  appended and is zero; all \<open>t\<close> slots are there when \<open>start\<close> is set; and while \<open>start\<close>
  is true no step of any thread makes \<open>localCounterVector\<close> longer.
\<close>

theorem slots_ready_before_gate:
  "trial (exec sched (init t i)) = LocalCounter \<longrightarrow>
     length (threadVector (exec sched (init t i)))
       \<le> length (localCounterVector (exec sched (init t i)))
     \<and> (mpc (exec sched (init t i)) = M_thread \<longrightarrow>
          length (localCounterVector (exec sched (init t i)))
            = length (threadVector (exec sched (init t i))) + 1
          \<and> localCounterVector (exec sched (init t i))
              ! length (threadVector (exec sched (init t i))) = 0)
     \<and> (mpc (exec sched (init t i)) = M_open \<longrightarrow>
          length (localCounterVector (exec sched (init t i))) = nat t)
     \<and> (start (exec sched (init t i)) \<longrightarrow>
          (\<forall>x. length (localCounterVector (step x (exec sched (init t i))))
                 \<le> length (localCounterVector (exec sched (init t i)))))"
proof
  define s where "s = exec sched (init t i)"
  assume "trial (exec sched (init t i)) = LocalCounter"
  then have tr: "trial s = LocalCounter" by (simp add: s_def)
  note p = reach_inv_parts [of sched t i, folded s_def]
  note len = ctl_slots [OF p(1) tr]
  have w: "workers s = nat t"
    by (simp add: s_def reach_workers)
  have a: "length (threadVector s) \<le> length (localCounterVector s)"
    using len ctl_no_threads [OF p(1)] by (cases "mpc s") simp_all
  have b: "length (localCounterVector s) = length (threadVector s) + 1
           \<and> localCounterVector s ! length (threadVector s) = 0" if "mpc s = M_thread"
    using that len local_okD(3) [OF p(5) tr] ctl_spawning [OF p(1)] by simp
  have c: "length (localCounterVector s) = nat t" if "mpc s = M_open"
    using that len ctl_spawned [OF p(1)] w by simp
  have d: "length (localCounterVector (step x s)) \<le> length (localCounterVector s)"
    if st: "start s" for x
  proof (cases x)
    case Main
    have "mpc s \<noteq> M_spawn"
      using ctl_start [OF p(1)] st by auto
    then show ?thesis
      using Main by (simp add: main_step_slots)
  next
    case (Worker k)
    then show ?thesis by simp
  qed
  show "length (threadVector (exec sched (init t i)))
       \<le> length (localCounterVector (exec sched (init t i)))
     \<and> (mpc (exec sched (init t i)) = M_thread \<longrightarrow>
          length (localCounterVector (exec sched (init t i)))
            = length (threadVector (exec sched (init t i))) + 1
          \<and> localCounterVector (exec sched (init t i))
              ! length (threadVector (exec sched (init t i))) = 0)
     \<and> (mpc (exec sched (init t i)) = M_open \<longrightarrow>
          length (localCounterVector (exec sched (init t i))) = nat t)
     \<and> (start (exec sched (init t i)) \<longrightarrow>
          (\<forall>x. length (localCounterVector (step x (exec sched (init t i))))
                 \<le> length (localCounterVector (exec sched (init t i)))))"
    using a b c d unfolding s_def by blast
qed

theorem slots_ready_before_gate_witness:
  "trial (exec (take 88 (sequential_schedule 2 0)) (init 2 0)) = LocalCounter
   \<and> mpc (exec (take 88 (sequential_schedule 2 0)) (init 2 0)) = M_thread
   \<and> length (threadVector (exec (take 88 (sequential_schedule 2 0)) (init 2 0))) = 1
   \<and> length (localCounterVector (exec (take 88 (sequential_schedule 2 0)) (init 2 0))) = 1 + 1
   \<and> localCounterVector (exec (take 88 (sequential_schedule 2 0)) (init 2 0)) ! 1 = 0"
proof -
  have a: "trial (exec (take 88 (sequential_schedule 2 0)) (init 2 0)) = LocalCounter"
    "mpc (exec (take 88 (sequential_schedule 2 0)) (init 2 0)) = M_thread"
    "length (threadVector (exec (take 88 (sequential_schedule 2 0)) (init 2 0))) = 1"
    by code_simp+
  show ?thesis
    using a slots_ready_before_gate [of "take 88 (sequential_schedule 2 0)" 2 0]
    by simp
qed

text \<open>
  The claim as stated fails with two threads: after 87 steps of the sequential run the
  first thread of the LocalCounter trial exists and there is one slot; the next step of
  \<open>main\<close> appends the second slot.
\<close>

theorem slot_appended_after_spawn:
  "length (threadVector (exec (take 87 (sequential_schedule 2 0)) (init 2 0))) = 1
   \<and> length (localCounterVector (exec (take 87 (sequential_schedule 2 0)) (init 2 0))) = 1
   \<and> length (localCounterVector
        (step Main (exec (take 87 (sequential_schedule 2 0)) (init 2 0)))) = 2
   \<and> mlog (step Main (exec (take 87 (sequential_schedule 2 0)) (init 2 0)))
       = mlog (exec (take 85 (sequential_schedule 2 0)) (init 2 0))
         @ [E_push_slot LocalCounter 0, E_spawn LocalCounter 0, E_push_slot LocalCounter 1]"
  by code_simp

end
